theory Spec2Isabelle
  imports Complex_Main
begin

section \<open>Errors and outcomes\<close>

text \<open>
  Every \<^verbatim>\<open>throw\<close> of the source is a value of \<open>error\<close>. \<open>OutOfBounds\<close> stands for
  a read or write outside a buffer, a span or a view, which the source does not check
  (undefined behaviour in C++). \<open>BadCast\<close> is the \<^verbatim>\<open>std::bad_cast\<close> of a failed
  \<^verbatim>\<open>dynamic_cast\<close> to a concept of another element type.
\<close>

datatype error =
    UnitsDoNotMatch
  | DimensionsDoNotMatch
  | DimensionExtentsDoNotMatch
  | DataTypesDoNotMatch
  | NamesDoNotMatch
  | UnderlyingDataTypesDoNotMatch
  | NotAnArithmeticType
  | EventsNotImplemented
  | SliceIndexOutOfRange
  | DataSizeMismatch
  | DimensionError
  | SliceError
  | BadCast
  | OutOfBounds
  | DivisionByZero
  | NonConstantBinWidth
  | UnsortedEdges
  | ViewIsConst
  | ViewNotContiguous
  | PartialViewUnit

text \<open>
  An in-place operation mutates its left-hand side and may throw afterwards: its result is
  the state the caller observes, together with whether the call returned or threw.
\<close>

datatype 's outcome = Returned 's | Threw error 's


fun threw :: "'s outcome \<Rightarrow> bool" where
  "threw (Returned s) = False"
| "threw (Threw e s) = True"

section \<open>Dimension labels and Dimensions\<close>

datatype Dim = Invalid | X | Y | Z | Tof | Row | Detector | Spectrum

text \<open>
  Modelled from the spec: the class \<^verbatim>\<open>Dimensions\<close> is declared in a header that is not
  among the sources; only its callers are. It is an ordered sequence of (label, extent)
  pairs in which each label appears at most once (spec 3.2). The list below is in the
  order of the class's own storage as \<^verbatim>\<open>src/src/variable.cpp\<close> uses it: \<^verbatim>\<open>label(0)\<close>
  is the innermost axis (\<^verbatim>\<open>VariableConceptT::rebin\<close> calls \<^verbatim>\<open>label(0) == dim\<close> the
  inner dimension, and the strided-view test strides the first declared label by one),
  \<^verbatim>\<open>add\<close> appends, so a label added last is the outermost axis. The spec writes a
  Dimensions value from the outermost axis to the innermost one, which is \<open>rev\<close> of this
  list. A lookup of a label the value does not hold raises in the class (spec 7); the
  total functions below are only called under a \<open>contains\<close> test, as in the source, or
  after an explicit check.
\<close>

type_synonym Dimensions = "(Dim \<times> nat) list"

definition labels :: "Dimensions \<Rightarrow> Dim list" where
  "labels dims = map fst dims"

definition count :: "Dimensions \<Rightarrow> nat" where
  "count dims = length dims"

definition contains :: "Dimensions \<Rightarrow> Dim \<Rightarrow> bool" where
  "contains dims l = (l \<in> set (labels dims))"

fun size_of :: "Dimensions \<Rightarrow> Dim \<Rightarrow> nat" where
  "size_of [] l = 0"
| "size_of ((l', n) # rest) l = (if l' = l then n else size_of rest l)"

text \<open>The stride of a label: the product of the extents of all axes inside it.\<close>

fun offset :: "Dimensions \<Rightarrow> Dim \<Rightarrow> nat" where
  "offset [] l = 1"
| "offset ((l', n) # rest) l = (if l' = l then 1 else n * offset rest l)"

definition volume :: "Dimensions \<Rightarrow> nat" where
  "volume dims = prod_list (map snd dims)"

definition resize :: "Dimensions \<Rightarrow> Dim \<Rightarrow> nat \<Rightarrow> Dimensions" where
  "resize dims l n = map (\<lambda>(l', n'). if l' = l then (l', n) else (l', n')) dims"

definition erase :: "Dimensions \<Rightarrow> Dim \<Rightarrow> Dimensions" where
  "erase dims l = filter (\<lambda>(l', n'). l' \<noteq> l) dims"

definition add :: "Dimensions \<Rightarrow> Dim \<Rightarrow> nat \<Rightarrow> Dimensions" where
  "add dims l n = dims @ [(l, n)]"

text \<open>\<^verbatim>\<open>contains(const Dimensions &)\<close>: every axis of \<open>other\<close>, with its extent, is an
  axis of \<open>self\<close>; the order of the axes does not matter (spec 4.4).\<close>

definition contains_dims :: "Dimensions \<Rightarrow> Dimensions \<Rightarrow> bool" where
  "contains_dims self other = list_all (\<lambda>p. p \<in> set self) other"

text \<open>\<^verbatim>\<open>isContiguousIn\<close>: \<open>self\<close> is a contiguous block of \<open>parent\<close> under the same label
  order: the axes of \<open>self\<close> are the innermost axes of \<open>parent\<close>, with the same extents,
  except that the outermost axis of \<open>self\<close> may be a section of the parent's.\<close>

fun isContiguousIn :: "Dimensions \<Rightarrow> Dimensions \<Rightarrow> bool" where
  "isContiguousIn [] parent = True"
| "isContiguousIn ((l, n) # rest) [] = False"
| "isContiguousIn ((l, n) # rest) ((l', n') # parent) =
     (l = l' \<and> (if rest = [] then n \<le> n' else n = n' \<and> isContiguousIn rest parent))"

text \<open>The outermost-first reading of a Dimensions value, as the spec writes it.\<close>

definition outermost_first :: "Dimensions \<Rightarrow> Dimensions" where
  "outermost_first dims = rev dims"

section \<open>Strided views\<close>

text \<open>
  Modelled from the spec: \<^verbatim>\<open>VariableView\<close> and \<^verbatim>\<open>makeVariableView\<close> are not among the
  sources. A view is the sequence of buffer positions it visits (spec 4.1): one position
  per multi-index of the target dimensions, the outermost axis varying slowest; an axis
  of the target that the parent holds advances by the parent's stride, any other axis is
  a broadcast with stride 0. Construction is rejected when a target axis that the parent
  holds is longer than the parent's.
\<close>

definition stride :: "Dimensions \<Rightarrow> Dim \<Rightarrow> nat" where
  "stride parent l = (if contains parent l then offset parent l else 0)"

fun view_indices :: "Dimensions \<Rightarrow> Dimensions \<Rightarrow> nat \<Rightarrow> nat list" where
  "view_indices [] parent base = [base]"
| "view_indices ((l, n) # rest) parent base =
     concat (map (\<lambda>b. map (\<lambda>i. b + i * stride parent l) [0..<n])
                 (view_indices rest parent base))"

definition makeVariableView :: "nat \<Rightarrow> Dimensions \<Rightarrow> Dimensions \<Rightarrow> error + nat list" where
  "makeVariableView off targetDimensions dims =
     (if list_ex (\<lambda>(l, n). contains dims l \<and> size_of dims l < n) targetDimensions
      then Inl DimensionError
      else Inr (view_indices targetDimensions dims off))"

section \<open>Buffers: reading and writing through spans and views\<close>

text \<open>
  A span and a view are both sequences of positions of a buffer. \<open>deref\<close> reads a
  sequence; \<open>std_copy\<close> is \<^verbatim>\<open>std::copy(source.begin(), source.end(), target.begin())\<close>;
  \<open>std_transform\<close> is \<^verbatim>\<open>std::transform(a.begin(), a.end(), b.begin(), a.begin(), op)\<close>,
  which reads and writes position by position, so that a position the target visits
  twice accumulates.
\<close>

definition deref :: "'a list \<Rightarrow> nat list \<Rightarrow> error + 'a list" where
  "deref buf idxs =
     (if list_all (\<lambda>i. i < length buf) idxs then Inr (map ((!) buf) idxs)
      else Inl OutOfBounds)"

definition std_copy :: "'a list \<Rightarrow> nat list \<Rightarrow> 'a list \<Rightarrow> error + 'a list" where
  "std_copy source target buf =
     (if length target < length source
         \<or> \<not> list_all (\<lambda>i. i < length buf) (take (length source) target)
      then Inl OutOfBounds
      else Inr (fold (\<lambda>(i, v) b. b[i := v]) (zip target source) buf))"

definition std_transform ::
  "('a \<Rightarrow> 'a \<Rightarrow> 'a) \<Rightarrow> nat list \<Rightarrow> 'a list \<Rightarrow> 'a list \<Rightarrow> error + 'a list" where
  "std_transform op a b buf =
     (if length b < length a \<or> \<not> list_all (\<lambda>i. i < length buf) a
      then Inl OutOfBounds
      else Inr (fold (\<lambda>(i, v) c. c[i := op (c ! i) v]) (zip a b) buf))"

section \<open>DataModel: the concept that owns its data\<close>

text \<open>
  \<open>dtype\<close> is the element type \<^verbatim>\<open>T\<close> of \<^verbatim>\<open>DataModel<Vector<T>>\<close>, one constructor per
  instantiation of \<^verbatim>\<open>src/src/variable.cpp\<close> (nested datasets left out). The elements
  themselves are values of one HOL type \<open>'a\<close>: the arithmetic of the element type is the
  arithmetic of \<open>'a\<close>, so rounding and overflow of the machine types are outside the
  model.
\<close>

datatype DType =
    Double | Char | Int32 | Int64 | String | PairInt64 | ValueWithDeltaDouble
  | SmallVectorIndex | VectorString | VectorIndex | ArrayDouble3 | ArrayDouble4
  | SharedPtrArray

fun arithmetic :: "DType \<Rightarrow> bool" where
  "arithmetic Double = True"
| "arithmetic Char = True"
| "arithmetic Int32 = True"
| "arithmetic Int64 = True"
| "arithmetic t = False"

record 'a DataModel =
  dimensions :: Dimensions
  dtype :: DType
  m_model :: "'a list"

definition make_DataModel :: "Dimensions \<Rightarrow> DType \<Rightarrow> 'a list \<Rightarrow> error + 'a DataModel" where
  "make_DataModel dims t model =
     (if volume dims \<noteq> length model then Inl DataSizeMismatch
      else Inr \<lparr>dimensions = dims, dtype = t, m_model = model\<rparr>)"

definition isContiguous :: "'a DataModel \<Rightarrow> bool" where
  "isContiguous m = True"

definition getSpan :: "'a DataModel \<Rightarrow> nat list" where
  "getSpan m = [0..<length (m_model m)]"

definition makeSpan :: "nat \<Rightarrow> Dimensions \<Rightarrow> Dim \<Rightarrow> nat \<Rightarrow> nat \<Rightarrow> error + nat list" where
  "makeSpan model_size dims dim' ibegin iend =
     (if \<not> contains dims dim' \<and> (ibegin \<noteq> 0 \<or> iend \<noteq> 1) then Inl SliceIndexOutOfRange
      else if \<not> contains dims dim' \<or> int (size_of dims dim') = int iend - int ibegin
      then Inr [0..<model_size]
      else Inr [ibegin * offset dims dim'..<iend * offset dims dim'])"

definition getSpan_slice :: "'a DataModel \<Rightarrow> Dim \<Rightarrow> nat \<Rightarrow> nat \<Rightarrow> error + nat list" where
  "getSpan_slice m dim' ibegin iend = makeSpan (length (m_model m)) (dimensions m) dim' ibegin iend"

definition getView :: "'a DataModel \<Rightarrow> Dimensions \<Rightarrow> error + nat list" where
  "getView m dims = makeVariableView 0 dims (dimensions m)"

definition getView_slice :: "'a DataModel \<Rightarrow> Dimensions \<Rightarrow> Dim \<Rightarrow> nat \<Rightarrow> error + nat list" where
  "getView_slice m dims dim' ibegin =
     (let beginOffset = (if contains (dimensions m) dim'
                         then ibegin * offset (dimensions m) dim'
                         else ibegin * volume (dimensions m))
      in makeVariableView beginOffset dims (dimensions m))"

text \<open>\<^verbatim>\<open>clone(const Dimensions &)\<close>: a fresh model \<^verbatim>\<open>T(dims.volume())\<close>, value-initialised.\<close>

definition clone_dims :: "'a::zero DataModel \<Rightarrow> Dimensions \<Rightarrow> 'a DataModel" where
  "clone_dims m dims = \<lparr>dimensions = dims, dtype = dtype m, m_model = replicate (volume dims) 0\<rparr>"

section \<open>VariableConceptT: operations shared by every concept\<close>

text \<open>\<^verbatim>\<open>ArithmeticHelper<Op, T>::apply\<close>: disabled for the element types that are not
  arithmetic, \<^verbatim>\<open>std::transform\<close> otherwise. Both arguments are evaluated before the
  call.\<close>

definition ArithmeticHelper_apply ::
  "('a \<Rightarrow> 'a \<Rightarrow> 'a) \<Rightarrow> DType \<Rightarrow> nat list \<Rightarrow> 'a list \<Rightarrow> 'a list \<Rightarrow> error + 'a list" where
  "ArithmeticHelper_apply op t a b buf =
     (if \<not> arithmetic t then Inl NotAnArithmeticType else std_transform op a b buf)"

fun and_then :: "error + 'a \<Rightarrow> ('a \<Rightarrow> error + 'b) \<Rightarrow> error + 'b" where
  "and_then (Inl e) f = Inl e"
| "and_then (Inr x) f = f x"

text \<open>\<^verbatim>\<open>VariableConceptT::operator==\<close>. \<^verbatim>\<open>equal\<close> is the four-iterator
  \<^verbatim>\<open>std::equal\<close>: the two sequences have the same length and the same elements.\<close>

definition concept_equal :: "'a DataModel \<Rightarrow> 'a DataModel \<Rightarrow> error + bool" where
  "concept_equal self other =
     (if dimensions self \<noteq> dimensions other then Inr False
      else if dtype other \<noteq> dtype self then Inl BadCast
      else if isContiguous self then
        (if isContiguous other \<and> isContiguousIn (dimensions self) (dimensions other)
         then and_then (deref (m_model self) (getSpan self)) (\<lambda>view1.
              and_then (deref (m_model other) (getSpan other)) (\<lambda>view2.
              Inr (view1 = view2)))
         else and_then (deref (m_model self) (getSpan self)) (\<lambda>view1.
              and_then (getView other (dimensions self)) (\<lambda>v.
              and_then (deref (m_model other) v) (\<lambda>view2.
              Inr (view1 = view2)))))
      else
        (if isContiguous other \<and> isContiguousIn (dimensions self) (dimensions other)
         then and_then (getView self (dimensions self)) (\<lambda>v.
              and_then (deref (m_model self) v) (\<lambda>view1.
              and_then (deref (m_model other) (getSpan other)) (\<lambda>view2.
              Inr (view1 = view2))))
         else and_then (getView self (dimensions self)) (\<lambda>v.
              and_then (deref (m_model self) v) (\<lambda>view1.
              and_then (getView other (dimensions self)) (\<lambda>w.
              and_then (deref (m_model other) w) (\<lambda>view2.
              Inr (view1 = view2)))))))"

text \<open>\<^verbatim>\<open>VariableConceptT::apply<Op>\<close>. The \<^verbatim>\<open>std::bad_cast\<close> of the first line is
  caught and rethrown as "Underlying data types do not match".\<close>

definition apply_op :: "('a \<Rightarrow> 'a \<Rightarrow> 'a) \<Rightarrow> 'a DataModel \<Rightarrow> 'a DataModel \<Rightarrow> error + 'a DataModel" where
  "apply_op op self other =
     (if dtype other \<noteq> dtype self then Inl UnderlyingDataTypesDoNotMatch
      else and_then
        (if isContiguous self \<and> contains_dims (dimensions self) (dimensions other) then
           (if isContiguous other \<and> isContiguousIn (dimensions self) (dimensions other)
            then and_then (deref (m_model other) (getSpan other)) (\<lambda>b.
                 ArithmeticHelper_apply op (dtype self) (getSpan self) b (m_model self))
            else and_then (getView other (dimensions self)) (\<lambda>v.
                 and_then (deref (m_model other) v) (\<lambda>b.
                 ArithmeticHelper_apply op (dtype self) (getSpan self) b (m_model self))))
         else if contains_dims (dimensions self) (dimensions other) then
           (if isContiguous other \<and> isContiguousIn (dimensions self) (dimensions other)
            then and_then (getView self (dimensions self)) (\<lambda>a.
                 and_then (deref (m_model other) (getSpan other)) (\<lambda>b.
                 ArithmeticHelper_apply op (dtype self) a b (m_model self)))
            else and_then (getView self (dimensions self)) (\<lambda>a.
                 and_then (getView other (dimensions self)) (\<lambda>v.
                 and_then (deref (m_model other) v) (\<lambda>b.
                 ArithmeticHelper_apply op (dtype self) a b (m_model self)))))
         else
           (if isContiguous other \<and> isContiguousIn (dimensions self) (dimensions other)
            then and_then (getView self (dimensions other)) (\<lambda>a.
                 and_then (deref (m_model other) (getSpan other)) (\<lambda>b.
                 ArithmeticHelper_apply op (dtype self) a b (m_model self)))
            else and_then (getView self (dimensions other)) (\<lambda>a.
                 and_then (getView other (dimensions other)) (\<lambda>v.
                 and_then (deref (m_model other) v) (\<lambda>b.
                 ArithmeticHelper_apply op (dtype self) a b (m_model self))))))
        (\<lambda>buf. Inr (self\<lparr>m_model := buf\<rparr>)))"

text \<open>\<^verbatim>\<open>VariableConceptT::copy\<close>. The extents are unsigned here: a negative
  \<^verbatim>\<open>otherEnd - otherBegin\<close> is an extent that \<^verbatim>\<open>Dimensions\<close> rejects (spec 7). The
  \<^verbatim>\<open>dynamic_cast\<close> is not caught in this function.\<close>

definition copy ::
  "'a DataModel \<Rightarrow> 'a DataModel \<Rightarrow> Dim \<Rightarrow> nat \<Rightarrow> nat \<Rightarrow> nat \<Rightarrow> error + 'a DataModel" where
  "copy self other dim' offs otherBegin otherEnd =
     (if otherEnd < otherBegin then Inl DimensionError
      else
        let delta = otherEnd - otherBegin;
            iterDims = (if contains (dimensions self) dim'
                        then resize (dimensions self) dim' delta else dimensions self)
        in if dtype other \<noteq> dtype self then Inl BadCast
           else and_then (getView_slice other iterDims dim' otherBegin) (\<lambda>otherView.
             and_then
               (if isContiguous self \<and> isContiguousIn iterDims (dimensions self) then
                  and_then (getSpan_slice self dim' offs (offs + delta)) (\<lambda>target.
                    if isContiguous other \<and> isContiguousIn iterDims (dimensions other)
                    then and_then (getSpan_slice other dim' otherBegin otherEnd) (\<lambda>source.
                         and_then (deref (m_model other) source) (\<lambda>vals.
                         std_copy vals target (m_model self)))
                    else and_then (deref (m_model other) otherView) (\<lambda>vals.
                         std_copy vals target (m_model self)))
                else
                  and_then (getView_slice self iterDims dim' offs) (\<lambda>view.
                    if isContiguous other \<and> isContiguousIn iterDims (dimensions other)
                    then and_then (getSpan_slice other dim' otherBegin otherEnd) (\<lambda>source.
                         and_then (deref (m_model other) source) (\<lambda>vals.
                         std_copy vals view (m_model self)))
                    else and_then (deref (m_model other) otherView) (\<lambda>vals.
                         std_copy vals view (m_model self))))
               (\<lambda>buf. Inr (self\<lparr>m_model := buf\<rparr>))))"


section \<open>Rebinning\<close>

text \<open>
  The quotient \<^verbatim>\<open>a / b\<close> of two elements of the type \<^verbatim>\<open>T\<close>. For \<^verbatim>\<open>double\<close> it is the
  quotient of the field (no rounding); for \<^verbatim>\<open>char\<close>, \<^verbatim>\<open>int32_t\<close> and \<^verbatim>\<open>int64_t\<close>,
  whose values are the integers among the elements, it is the quotient rounded towards
  zero. A zero divisor is undefined for the integer types and gives an infinity or a NaN
  for \<^verbatim>\<open>double\<close>: neither is an element here, and the value is \<open>DivisionByZero\<close>.
\<close>

definition truncate_toward_zero :: "'a::floor_ceiling \<Rightarrow> 'a" where
  "truncate_toward_zero x = (if 0 \<le> x then of_int \<lfloor>x\<rfloor> else of_int \<lceil>x\<rceil>)"

definition element_divide :: "DType \<Rightarrow> 'a::floor_ceiling \<Rightarrow> 'a \<Rightarrow> error + 'a" where
  "element_divide t a b =
     (if b = 0 then Inl DivisionByZero
      else if t = Double then Inr (a / b)
      else Inr (truncate_toward_zero (a / b)))"

text \<open>The while loop of \<^verbatim>\<open>RebinHelper::rebinInner\<close> for one row: \<open>iold\<close> and \<open>inew\<close>
  are the two cursors, \<open>newData\<close> the output buffer. The source reads the coordinates and
  the data through raw pointers: a read or a write outside them is \<open>OutOfBounds\<close>.\<close>

function rebinInner_while ::
  "DType \<Rightarrow> 'a::floor_ceiling list \<Rightarrow> 'a list \<Rightarrow> 'a list \<Rightarrow> nat \<Rightarrow> nat \<Rightarrow> nat \<Rightarrow> nat
     \<Rightarrow> nat \<Rightarrow> nat \<Rightarrow> 'a list \<Rightarrow> error + 'a list" where
  "rebinInner_while t xold xnew oldData oldSize newSize oldOffset newOffset iold inew newData =
     (if iold < oldSize \<and> inew < newSize then
        (if length xold \<le> iold + 1 \<or> length xnew \<le> inew + 1 then Inl OutOfBounds
         else
           let xo_low = xold ! iold;
               xo_high = xold ! (iold + 1);
               xn_low = xnew ! inew;
               xn_high = xnew ! (inew + 1)
           in if xn_high \<le> xo_low then
                rebinInner_while t xold xnew oldData oldSize newSize oldOffset newOffset
                  iold (inew + 1) newData
              else if xo_high \<le> xn_low then
                rebinInner_while t xold xnew oldData oldSize newSize oldOffset newOffset
                  (iold + 1) inew newData
              else
                (let delta = (if xo_high < xn_high then xo_high else xn_high)
                               - (if xo_low > xn_low then xo_low else xn_low);
                     owidth = xo_high - xo_low
                 in if length oldData \<le> oldOffset + iold \<or> length newData \<le> newOffset + inew
                    then Inl OutOfBounds
                    else
                      (case element_divide t (oldData ! (oldOffset + iold) * delta) owidth of
                         Inl e \<Rightarrow> Inl e
                       | Inr q \<Rightarrow>
                           if xn_high > xo_high then
                             rebinInner_while t xold xnew oldData oldSize newSize oldOffset
                               newOffset (iold + 1) inew
                               (newData[newOffset + inew := newData ! (newOffset + inew) + q])
                           else
                             rebinInner_while t xold xnew oldData oldSize newSize oldOffset
                               newOffset iold (inew + 1)
                               (newData[newOffset + inew := newData ! (newOffset + inew) + q]))))
      else Inr newData)"
  by pat_completeness auto
termination
  by (relation "measure (\<lambda>(t, xold, xnew, oldData, oldSize, newSize, oldOffset, newOffset,
                           iold, inew, newData). (oldSize - iold) + (newSize - inew))") auto

declare rebinInner_while.simps [simp del]

text \<open>\<^verbatim>\<open>RebinHelper::rebinInner\<close>: the loop over the rows \<open>c\<close>, which writes into the
  buffer that \<open>newT\<close> already has. The division by a zero \<open>oldSize\<close> is undefined in the
  source and an error here. The helper is disabled for the element types that are not
  arithmetic.\<close>

definition rebinInner ::
  "Dim \<Rightarrow> 'a::floor_ceiling DataModel \<Rightarrow> 'a DataModel \<Rightarrow> 'a DataModel \<Rightarrow> 'a DataModel
     \<Rightarrow> error + 'a DataModel" where
  "rebinInner dim' oldT newT oldCoordT newCoordT =
     (let oldData = m_model oldT;
          newData = m_model newT;
          oldSize = size_of (dimensions oldT) dim';
          newSize = size_of (dimensions newT) dim';
          xold = m_model oldCoordT;
          xnew = m_model newCoordT
      in if \<not> arithmetic (dtype newT) then Inl NotAnArithmeticType
         else if oldSize = 0 then Inl DivisionByZero
         else
           let cnt = volume (dimensions oldT) div oldSize
           in and_then
                (fold (\<lambda>c r. case r of
                                 Inl e \<Rightarrow> Inl e
                               | Inr buf \<Rightarrow>
                                   rebinInner_while (dtype newT) xold xnew oldData oldSize newSize
                                     (c * oldSize) (c * newSize) 0 0 buf)
                      [0..<cnt] (Inr newData))
                (\<lambda>buf. Inr (newT\<lparr>m_model := buf\<rparr>)))"

text \<open>
  The while loop of the general \<^verbatim>\<open>RebinHelper::rebin\<close>. \<open>oldModel\<close> and \<open>newModel\<close> are
  the whole buffers of the old and of the new data; \<open>iold\<close> is the common index of
  \<^verbatim>\<open>oldIt\<close> and \<^verbatim>\<open>oldCoordIt\<close>, which advance together, and \<open>inew\<close> that of \<^verbatim>\<open>newIt\<close>
  and \<^verbatim>\<open>newCoordIt\<close>. The two coordinate views are the positions they visit in the
  buffers \<open>xold\<close> and \<open>xnew\<close>, so the comparison of the addresses
  \<^verbatim>\<open>&*(oldCoordIt + 1) == &(*oldCoordIt) + oldOffset\<close> is a comparison of positions. The
  element one past the end of a view is not defined by the sources (\<^verbatim>\<open>VariableView\<close> is
  not among them): taking its address is \<open>OutOfBounds\<close>, as is a read outside a buffer.
\<close>

function rebin_while ::
  "DType \<Rightarrow> 'a::floor_ceiling list \<Rightarrow> 'a list \<Rightarrow> nat list \<Rightarrow> nat list \<Rightarrow> nat \<Rightarrow> nat
     \<Rightarrow> 'a list \<Rightarrow> nat \<Rightarrow> nat \<Rightarrow> 'a list \<Rightarrow> error + 'a list" where
  "rebin_while t xold xnew oldCoordView newCoordView oldOffset newOffset oldModel iold inew newModel =
     (if inew < length newModel \<and> iold < length oldModel then
        (if length oldCoordView \<le> iold + 1 then Inl OutOfBounds
         else if oldCoordView ! (iold + 1) = oldCoordView ! iold + oldOffset then
           rebin_while t xold xnew oldCoordView newCoordView oldOffset newOffset oldModel
             (iold + 1) inew newModel
         else if length xold \<le> oldCoordView ! iold + oldOffset then Inl OutOfBounds
         else if length newCoordView \<le> inew + 1 then Inl OutOfBounds
         else if newCoordView ! (inew + 1) = newCoordView ! inew + newOffset then
           rebin_while t xold xnew oldCoordView newCoordView oldOffset newOffset oldModel
             iold (inew + 1) newModel
         else if length xnew \<le> newCoordView ! inew + newOffset then Inl OutOfBounds
         else
           let xo_low = xold ! (oldCoordView ! iold);
               xo_high = xold ! (oldCoordView ! iold + oldOffset);
               xn_low = xnew ! (newCoordView ! inew);
               xn_high = xnew ! (newCoordView ! inew + newOffset)
           in if xn_high \<le> xo_low then
                rebin_while t xold xnew oldCoordView newCoordView oldOffset newOffset oldModel
                  iold (inew + 1) newModel
              else if xo_high \<le> xn_low then
                rebin_while t xold xnew oldCoordView newCoordView oldOffset newOffset oldModel
                  (iold + 1) inew newModel
              else
                (let delta = (if xo_high < xn_high then xo_high else xn_high)
                               - (if xo_low > xn_low then xo_low else xn_low)
                 in case element_divide t (oldModel ! iold * delta) (xo_high - xo_low) of
                      Inl e \<Rightarrow> Inl e
                    | Inr q \<Rightarrow>
                        if xn_high > xo_high then
                          rebin_while t xold xnew oldCoordView newCoordView oldOffset newOffset
                            oldModel (iold + 1) inew (newModel[inew := newModel ! inew + q])
                        else
                          rebin_while t xold xnew oldCoordView newCoordView oldOffset newOffset
                            oldModel iold (inew + 1) (newModel[inew := newModel ! inew + q])))
      else Inr newModel)"
  by pat_completeness auto
termination
  by (relation "measure (\<lambda>(t, xold, xnew, oldCoordView, newCoordView, oldOffset, newOffset,
                           oldModel, iold, inew, newModel).
                           (length oldModel - iold) + (length newModel - inew))") auto

declare rebin_while.simps [simp del]

text \<open>
  \<^verbatim>\<open>VariableConceptT::rebin\<close>, called on the concept of the result. The three
  \<^verbatim>\<open>dynamic_cast\<close>s come first. When the axis is the innermost one of the result and the
  two coordinates have one dimension, the call goes to \<^verbatim>\<open>rebinInner\<close>; otherwise the
  dimensions of the coordinates are resized (\<^verbatim>\<open>size\<close> raises on a label that is
  missing, \<^verbatim>\<open>resize\<close> on the extent -1), the two coordinates are viewed over the
  dimensions of the result, and the call goes to \<^verbatim>\<open>RebinHelper::rebin\<close> with the whole
  spans of the old and of the new data.
\<close>

definition concept_rebin ::
  "'a::floor_ceiling DataModel \<Rightarrow> 'a DataModel \<Rightarrow> Dim \<Rightarrow> 'a DataModel \<Rightarrow> 'a DataModel
     \<Rightarrow> error + 'a DataModel" where
  "concept_rebin self old dim' oldCoord newCoord =
     (if dtype old \<noteq> dtype self \<or> dtype oldCoord \<noteq> dtype self \<or> dtype newCoord \<noteq> dtype self
      then Inl BadCast
      else if dimensions self \<noteq> [] \<and> fst (hd (dimensions self)) = dim'
              \<and> count (dimensions oldCoord) = 1 \<and> count (dimensions newCoord) = 1
      then rebinInner dim' old self oldCoord newCoord
      else if \<not> contains (dimensions oldCoord) dim' \<or> size_of (dimensions oldCoord) dim' = 0
      then Inl DimensionError
      else if \<not> contains (dimensions newCoord) dim' \<or> size_of (dimensions newCoord) dim' = 0
      then Inl DimensionError
      else
        let oldCoordDims = resize (dimensions oldCoord) dim'
                             (size_of (dimensions oldCoord) dim' - 1);
            newCoordDims = resize (dimensions newCoord) dim'
                             (size_of (dimensions newCoord) dim' - 1)
        in and_then (getView oldCoord (dimensions self)) (\<lambda>oldCoordView.
           and_then (getView newCoord (dimensions self)) (\<lambda>newCoordView.
             let oldOffset = offset oldCoordDims dim';
                 newOffset = offset newCoordDims dim'
             in if \<not> arithmetic (dtype self) then Inl NotAnArithmeticType
                else and_then
                  (rebin_while (dtype self) (m_model oldCoord) (m_model newCoord)
                     oldCoordView newCoordView oldOffset newOffset (m_model old) 0 0
                     (m_model self))
                  (\<lambda>buf. Inr (self\<lparr>m_model := buf\<rparr>)))))"

section \<open>Variable\<close>

datatype Tag =
    Coord_X | Coord_Y | Coord_Z | Coord_Tof | Coord_Mask
  | Data_Value | Data_Variance | Data_Int | Data_String | Data_Events | Data_Table

text \<open>The unit is a value of any type \<open>'u\<close> with equality and, for \<open>*=\<close>, a product: the
  unit library is an external collaborator.\<close>

record ('u, 'a) Variable =
  m_tag :: Tag
  m_unit :: 'u
  m_name :: string
  m_object :: "'a DataModel"

text \<open>A unit library for the examples: a unit is its exponents of length, time and
  counts, and the product of two units adds them.\<close>

datatype Unit = Unit (length_exp: int) (time_exp: int) (counts_exp: int)

instantiation Unit :: times
begin

definition times_Unit :: "Unit \<Rightarrow> Unit \<Rightarrow> Unit" where
  "times_Unit a b = Unit (length_exp a + length_exp b) (time_exp a + time_exp b)
                         (counts_exp a + counts_exp b)"

instance ..

end

definition metre :: Unit where "metre = Unit 1 0 0"

definition second :: Unit where "second = Unit 0 1 0"

definition valueTypeIs :: "('u, 'a) Variable \<Rightarrow> Tag \<Rightarrow> bool" where
  "valueTypeIs v t = (m_tag v = t)"

definition setDimensions :: "('u, 'a::zero) Variable \<Rightarrow> Dimensions \<Rightarrow> ('u, 'a) Variable" where
  "setDimensions v dims =
     (if dims = dimensions (m_object v) then v
      else v\<lparr>m_object := clone_dims (m_object v) dims\<rparr>)"

text \<open>\<^verbatim>\<open>Variable::operator==\<close>. \<open>same_object\<close> says whether the two handles point to one
  shared concept (\<^verbatim>\<open>m_object == other.m_object\<close>).\<close>

definition Variable_equal :: "bool \<Rightarrow> ('u, 'a) Variable \<Rightarrow> ('u, 'a) Variable \<Rightarrow> error + bool" where
  "Variable_equal same_object self other =
     (if m_name self \<noteq> m_name other then Inr False
      else if m_unit self \<noteq> m_unit other then Inr False
      else if same_object then Inr True
      else if m_tag self \<noteq> m_tag other then Inr False
      else if \<not> (dimensions (m_object self) = dimensions (m_object other)) then Inr False
      else concept_equal (m_object self) (m_object other))"

text \<open>The template \<^verbatim>\<open>equals\<close>, used as soon as one side is a slice.\<close>

definition equals :: "('u, 'a) Variable \<Rightarrow> ('u, 'a) Variable \<Rightarrow> error + bool" where
  "equals a b =
     (if m_name a \<noteq> m_name b then Inr False
      else if m_unit a \<noteq> m_unit b then Inr False
      else if m_tag a \<noteq> m_tag b then Inr False
      else if \<not> (dimensions (m_object a) = dimensions (m_object b)) then Inr False
      else concept_equal (m_object a) (m_object b))"

subsection \<open>In-place arithmetic\<close>



text \<open>\<^verbatim>\<open>times_equals\<close>: \<^verbatim>\<open>setUnit\<close> is called before the data are multiplied, so the
  variable that a throwing \<^verbatim>\<open>data() *= other.data()\<close> leaves behind has the new unit.\<close>

definition times_equals ::
  "('u::times, 'a::times) Variable \<Rightarrow> ('u, 'a) Variable \<Rightarrow> ('u, 'a) Variable outcome" where
  "times_equals variable other =
     (if \<not> contains_dims (dimensions (m_object variable)) (dimensions (m_object other))
      then Threw DimensionsDoNotMatch variable
      else if valueTypeIs variable Data_Events then Threw EventsNotImplemented variable
      else
        let variable' = variable\<lparr>m_unit := m_unit variable * m_unit other\<rparr>
        in case apply_op (*) (m_object variable') (m_object other) of
             Inl e \<Rightarrow> Threw e variable'
           | Inr d \<Rightarrow> Returned (variable'\<lparr>m_object := d\<rparr>))"

subsection \<open>Slicing, splitting, concatenating\<close>

text \<open>\<^verbatim>\<open>slice(var, dim, index)\<close>: \<^verbatim>\<open>erase\<close> raises on a label that is missing.\<close>

definition slice_index ::
  "('u, 'a::zero) Variable \<Rightarrow> Dim \<Rightarrow> nat \<Rightarrow> error + ('u, 'a) Variable" where
  "slice_index var dim' index =
     (if \<not> contains (dimensions (m_object var)) dim' then Inl DimensionError
      else
        let dims = erase (dimensions (m_object var)) dim';
            out = setDimensions var dims
        in and_then (copy (m_object out) (m_object var) dim' 0 index (index + 1))
             (\<lambda>d. Inr (out\<lparr>m_object := d\<rparr>)))"

text \<open>\<^verbatim>\<open>slice(var, dim, begin, end)\<close>: \<^verbatim>\<open>resize\<close> raises on a label that is missing and
  on a negative extent.\<close>

definition slice ::
  "('u, 'a::zero) Variable \<Rightarrow> Dim \<Rightarrow> nat \<Rightarrow> nat \<Rightarrow> error + ('u, 'a) Variable" where
  "slice var dim' ibegin iend =
     (if \<not> contains (dimensions (m_object var)) dim' \<or> iend < ibegin then Inl DimensionError
      else
        let dims = resize (dimensions (m_object var)) dim' (iend - ibegin)
        in if dims = dimensions (m_object var) then Inr var
           else
             let out = setDimensions var dims
             in and_then (copy (m_object out) (m_object var) dim' 0 ibegin iend)
                  (\<lambda>d. Inr (out\<lparr>m_object := d\<rparr>)))"

text \<open>Collecting the results of calls of which each may throw: the first error wins.\<close>

fun collect :: "(error + 'a) list \<Rightarrow> error + 'a list" where
  "collect [] = Inr []"
| "collect (r # rs) = and_then r (\<lambda>x. and_then (collect rs) (\<lambda>xs. Inr (x # xs)))"

definition split ::
  "('u, 'a::zero) Variable \<Rightarrow> Dim \<Rightarrow> nat list \<Rightarrow> error + ('u, 'a) Variable list" where
  "split var dim' indices =
     (if indices = [] then Inr [var]
      else if \<not> contains (dimensions (m_object var)) dim' then Inl DimensionError
      else collect
        (slice var dim' 0 (hd indices)
         # map (\<lambda>i. slice var dim' (indices ! i) (indices ! (i + 1))) [0..<length indices - 1]
         @ [slice var dim' (last indices) (size_of (dimensions (m_object var)) dim')]))"

text \<open>The loop of \<^verbatim>\<open>concatenate\<close> over the labels of \<open>dims1\<close>.\<close>

fun concatenate_check :: "Dim list \<Rightarrow> Dimensions \<Rightarrow> Dimensions \<Rightarrow> Dim \<Rightarrow> error option" where
  "concatenate_check [] dims1 dims2 dim' = None"
| "concatenate_check (dim1 # rest) dims1 dims2 dim' =
     (if dim1 \<noteq> dim' then
        (if \<not> contains dims2 dim1 then Some DimensionsDoNotMatch
         else if size_of dims2 dim1 \<noteq> size_of dims1 dim1 then Some DimensionExtentsDoNotMatch
         else concatenate_check rest dims1 dims2 dim')
      else concatenate_check rest dims1 dims2 dim')"

definition concatenate ::
  "('u, 'a::zero) Variable \<Rightarrow> ('u, 'a) Variable \<Rightarrow> Dim \<Rightarrow> error + ('u, 'a) Variable" where
  "concatenate a1 a2 dim' =
     (if m_tag a1 \<noteq> m_tag a2 then Inl DataTypesDoNotMatch
      else if m_unit a1 \<noteq> m_unit a2 then Inl UnitsDoNotMatch
      else if m_name a1 \<noteq> m_name a2 then Inl NamesDoNotMatch
      else
        let dims1 = dimensions (m_object a1);
            dims2 = dimensions (m_object a2)
        in case concatenate_check (labels dims1) dims1 dims2 dim' of
             Some e \<Rightarrow> Inl e
           | None \<Rightarrow>
               let size1 = int (count dims1) - (if contains dims1 dim' then 1 else 0);
                   size2 = int (count dims2) - (if contains dims2 dim' then 1 else 0)
               in if size1 \<noteq> size2 then Inl DimensionsDoNotMatch
                  else
                    let extent1 = (if contains dims1 dim' then size_of dims1 dim' else 1);
                        extent2 = (if contains dims2 dim' then size_of dims2 dim' else 1);
                        dims = (if contains dims1 dim' then resize dims1 dim' (extent1 + extent2)
                                else add dims1 dim' (extent1 + extent2));
                        out = setDimensions a1 dims
                    in and_then (copy (m_object out) (m_object a1) dim' 0 0 extent1) (\<lambda>d1.
                       and_then (copy d1 (m_object a2) dim' extent1 0 extent2) (\<lambda>d2.
                       Inr (out\<lparr>m_object := d2\<rparr>))))"

subsection \<open>rebin, permute, sum\<close>

text \<open>\<^verbatim>\<open>rebin\<close>: the table \<^verbatim>\<open>coordDimension\<close> is not among the sources; the dimension it
  gives for the tag of the new coordinate is the parameter \<open>dim'\<close>. \<^verbatim>\<open>resize\<close> and
  \<^verbatim>\<open>size\<close> raise on a label that is missing, \<^verbatim>\<open>resize\<close> on the extent -1 of an empty
  coordinate.\<close>

definition rebin ::
  "Dim \<Rightarrow> ('u, 'a::floor_ceiling) Variable \<Rightarrow> ('u, 'a) Variable \<Rightarrow> ('u, 'a) Variable
     \<Rightarrow> error + ('u, 'a) Variable" where
  "rebin dim' var oldCoord newCoord =
     (if \<not> contains (dimensions (m_object var)) dim'
         \<or> \<not> contains (dimensions (m_object newCoord)) dim'
         \<or> size_of (dimensions (m_object newCoord)) dim' = 0
      then Inl DimensionError
      else
        let dims = resize (dimensions (m_object var)) dim'
                     (size_of (dimensions (m_object newCoord)) dim' - 1);
            rebinned = setDimensions var dims
        in and_then (concept_rebin (m_object rebinned) (m_object var) dim'
                       (m_object oldCoord) (m_object newCoord))
             (\<lambda>d. Inr (rebinned\<lparr>m_object := d\<rparr>)))"

definition permute ::
  "('u, 'a) Variable \<Rightarrow> Dim \<Rightarrow> nat list \<Rightarrow> error + ('u, 'a) Variable" where
  "permute var dim' indices =
     and_then
       (fold (\<lambda>i r. and_then r (\<lambda>d. copy d (m_object var) dim' i (indices ! i) (indices ! i + 1)))
             [0..<length indices] (Inr (m_object var)))
       (\<lambda>d. Inr (var\<lparr>m_object := d\<rparr>))"

definition sum_dim ::
  "('u, 'a::{zero,plus}) Variable \<Rightarrow> Dim \<Rightarrow> error + ('u, 'a) Variable" where
  "sum_dim var dim' =
     (if \<not> contains (dimensions (m_object var)) dim' then Inl DimensionError
      else
        let dims = erase (dimensions (m_object var)) dim';
            summed = setDimensions var dims
        in and_then (apply_op (+) (m_object summed) (m_object var))
             (\<lambda>d. Inr (summed\<lparr>m_object := d\<rparr>)))"

section \<open>ViewModel: the concept that views the data of a Variable\<close>

text \<open>
  \<^verbatim>\<open>ViewModel<VariableView<T>>\<close>. Its \<^verbatim>\<open>m_model\<close> is a \<^verbatim>\<open>VariableView\<close>, which is not
  among the sources. Modelled from the spec: a view is a base offset into the buffer of
  its parent, its own dimensions and the dimensions of the parent (spec 4.1); it visits
  the positions \<open>view_indices\<close>, and a view made from a view with other dimensions keeps
  the offset and the parent. The constructor of \<^verbatim>\<open>ViewModel\<close> throws unless the volume of
  its dimensions is the size of the view; every caller in the source passes the
  dimensions of the view itself, so one field holds both. \<open>view_const\<close> says that the
  element type of the view is const.
\<close>

record ViewModel =
  view_dimensions :: Dimensions
  view_dtype :: DType
  view_offset :: nat
  view_parent :: Dimensions
  view_const :: bool







text \<open>
  \<^verbatim>\<open>VariableSlice\<close>: the Variable it may change and the view onto its data. Its class is
  declared in a header that is not among the sources; its tag and unit are those of the
  Variable and its dimensions those of the view (spec 4.3). \<^verbatim>\<open>Variable::operator()\<close>
  makes the slice \<^verbatim>\<open>{*this, dim, begin, end}\<close>.
\<close>

record ('u, 'a) VariableSlice =
  vs_variable :: "('u, 'a) Variable"
  vs_view :: ViewModel


text \<open>Writing the buffer that an operation on the view has produced back into the
  Variable.\<close>

definition with_buffer :: "('u, 'a) VariableSlice \<Rightarrow> 'a list \<Rightarrow> ('u, 'a) VariableSlice" where
  "with_buffer s buf =
     s\<lparr>vs_variable := (vs_variable s)\<lparr>m_object := (m_object (vs_variable s))\<lparr>m_model := buf\<rparr>\<rparr>\<rparr>"





section \<open>Slices of the later generation\<close>



section \<open>Notions of the specification\<close>

text \<open>The overlap of an input bin and an output bin, and what the input bin \<open>i\<close> of a
  row contributes to the output bin \<open>j\<close> (spec 4.6).\<close>

definition overlap :: "'a::linordered_field \<Rightarrow> 'a \<Rightarrow> 'a \<Rightarrow> 'a \<Rightarrow> 'a" where
  "overlap xo_low xo_high xn_low xn_high = max 0 (min xo_high xn_high - max xo_low xn_low)"

definition contribution :: "'a::linordered_field list \<Rightarrow> 'a list \<Rightarrow> 'a list \<Rightarrow> nat \<Rightarrow> nat \<Rightarrow> nat \<Rightarrow> 'a" where
  "contribution xold xnew oldData oldOffset i j =
     oldData ! (oldOffset + i)
       * (overlap (xold ! i) (xold ! (i + 1)) (xnew ! j) (xnew ! (j + 1))
            / (xold ! (i + 1) - xold ! i))"


text \<open>The equality of two Variables as the specification words it (spec 4.3): units and
  names agree, the dimensions agree up to the order of the axes, and the elements agree
  when the right-hand side is read in the iteration order of the left-hand side.\<close>

definition equal_up_to_axis_order :: "('u, 'a) Variable \<Rightarrow> ('u, 'a) Variable \<Rightarrow> bool" where
  "equal_up_to_axis_order a b =
     (m_unit a = m_unit b \<and> m_name a = m_name b
      \<and> set (dimensions (m_object a)) = set (dimensions (m_object b))
      \<and> length (dimensions (m_object a)) = length (dimensions (m_object b))
      \<and> deref (m_model (m_object b))
            (view_indices (dimensions (m_object a)) (dimensions (m_object b)) 0)
          = Inr (m_model (m_object a)))"

text \<open>Positions by label. A coordinate gives every label an index; \<open>index_of\<close> is the
  position in the buffer of the element with these indices, \<open>in_range\<close> says that the
  indices lie within the extents, and \<open>element_at\<close> reads the element.\<close>

fun index_of :: "Dimensions \<Rightarrow> (Dim \<Rightarrow> nat) \<Rightarrow> nat" where
  "index_of [] c = 0"
| "index_of ((l, n) # rest) c = c l + n * index_of rest c"

definition in_range :: "Dimensions \<Rightarrow> (Dim \<Rightarrow> nat) \<Rightarrow> bool" where
  "in_range dims c = list_all (\<lambda>(l, n). c l < n) dims"

definition element_at :: "'a DataModel \<Rightarrow> (Dim \<Rightarrow> nat) \<Rightarrow> 'a" where
  "element_at m c = m_model m ! index_of (dimensions m) c"

text \<open>A concept is well formed when its labels are distinct and its buffer has the volume
  of its dimensions (spec 3.2, 3.4).\<close>

definition well_formed :: "'a DataModel \<Rightarrow> bool" where
  "well_formed m = (distinct (labels (dimensions m)) \<and> length (m_model m) = volume (dimensions m))"

text \<open>The coordinate of the \<open>k\<close>-th element that a view over the target dimensions
  visits, and the distance from the base of the view to the position it reads there.\<close>

fun decode :: "Dimensions \<Rightarrow> nat \<Rightarrow> (Dim \<Rightarrow> nat)" where
  "decode [] k = (\<lambda>l. 0)"
| "decode ((l, n) # rest) k = (decode rest (k div n))(l := k mod n)"

fun lin :: "Dimensions \<Rightarrow> Dimensions \<Rightarrow> (Dim \<Rightarrow> nat) \<Rightarrow> nat" where
  "lin parent [] c = 0"
| "lin parent ((l, n) # rest) c = c l * stride parent l + lin parent rest c"

text \<open>The spec writes \<open>concatenate(pieces, d)\<close> for a list of pieces; the code has the
  concatenation of two variables only. \<open>concatenate_from acc pieces d\<close> appends the pieces
  to \<open>acc\<close> one after the other, from the left.\<close>

fun concatenate_from ::
  "('u, 'a::zero) Variable \<Rightarrow> ('u, 'a) Variable list \<Rightarrow> Dim \<Rightarrow> error + ('u, 'a) Variable" where
  "concatenate_from acc [] d = Inr acc"
| "concatenate_from acc (v # vs) d = and_then (concatenate acc v d) (\<lambda>r. concatenate_from r vs d)"

text \<open>The calls of \<open>slice\<close> that \<open>split\<close> makes once it has reached position \<open>b\<close>: one
  piece up to each remaining index, and the last piece up to the extent \<open>n\<close>.\<close>

fun cuts ::
  "('u, 'a::zero) Variable \<Rightarrow> Dim \<Rightarrow> nat \<Rightarrow> nat list \<Rightarrow> nat \<Rightarrow> (error + ('u, 'a) Variable) list" where
  "cuts var d b [] n = [slice var d b n]"
| "cuts var d b (i # rest) n = slice var d b i # cuts var d i rest n"

text \<open>The piece of a Variable between the positions \<open>b\<close> and \<open>e\<close> along an axis, as a
  partition has it (spec 4.3): the header and the element type of the Variable, its
  dimensions with the extent \<open>e - b\<close> along the axis, and at every coordinate the element
  that the Variable has \<open>b\<close> positions further along the axis.\<close>

definition is_section ::
  "('u, 'a) Variable \<Rightarrow> Dim \<Rightarrow> nat \<Rightarrow> nat \<Rightarrow> ('u, 'a) Variable \<Rightarrow> bool" where
  "is_section var d b e r \<longleftrightarrow>
     m_tag r = m_tag var \<and> m_unit r = m_unit var \<and> m_name r = m_name var
     \<and> dtype (m_object r) = dtype (m_object var)
     \<and> dimensions (m_object r) = resize (dimensions (m_object var)) d (e - b)
     \<and> well_formed (m_object r)
     \<and> (\<forall>c. in_range (dimensions (m_object r)) c \<longrightarrow>
            element_at (m_object r) c = element_at (m_object var) (c(d := b + c d)))"

section \<open>Sparse and dense: the fused operation\<close>

text \<open>
  Modelled from the spec: \<^verbatim>\<open>scipp::numeric::is_linspace\<close>, \<^verbatim>\<open>linear_edge_params\<close> and
  \<^verbatim>\<open>expect::histogram::sorted_edges\<close> are called by \<^verbatim>\<open>apply_op_sparse_dense\<close> and are
  not among the sources. Edges are uniformly spaced when there are at least two of them,
  they increase, and all bins have the width of the range divided by the number of bins
  (spec 4.7, no tolerance: the arithmetic is exact). The parameters of \<open>K + 1\<close> such edges
  are the offset \<open>edges[0]\<close>, the number of bins \<open>K\<close> and the scale
  \<open>K / (edges[K] - edges[0])\<close> (spec 4.7). \<open>sorted_edges\<close> raises unless the edges are
  sorted.
\<close>

definition is_linspace :: "'a::floor_ceiling list \<Rightarrow> bool" where
  "is_linspace edges =
     (2 \<le> length edges \<and> edges ! 0 < edges ! (length edges - 1)
      \<and> list_all (\<lambda>i. edges ! (i + 1) - edges ! i
                          = (edges ! (length edges - 1) - edges ! 0) / of_nat (length edges - 1))
           [0..<length edges - 1])"

definition linear_edge_params :: "'a::floor_ceiling list \<Rightarrow> 'a \<times> nat \<times> 'a" where
  "linear_edge_params edges =
     (edges ! 0, length edges - 1,
      of_nat (length edges - 1) / (edges ! (length edges - 1) - edges ! 0))"

definition sorted_edges :: "'a::floor_ceiling list \<Rightarrow> error option" where
  "sorted_edges edges = (if sorted edges then None else Some UnsortedEdges)"

text \<open>
  \<^verbatim>\<open>apply_op_sparse_dense\<close> for weights without variances: one output per event of
  \<open>coord\<close>. \<^verbatim>\<open>weights[bin]\<close> converts the bin, which is not negative there, to an index by
  dropping its fraction; an index outside the span of the weights is \<open>OutOfBounds\<close>.
\<close>

definition apply_op_sparse_dense ::
  "('a \<Rightarrow> 'a \<Rightarrow> 'a) \<Rightarrow> 'a::floor_ceiling list \<Rightarrow> 'a list \<Rightarrow> 'a list \<Rightarrow> error + 'a list" where
  "apply_op_sparse_dense op coord edges weights =
     (if is_linspace edges then
        (case linear_edge_params edges of
           (offset', nbin, scale) \<Rightarrow>
             collect (map (\<lambda>c. let event_weight = 1;
                                   bin = (c - offset') * scale
                               in if bin \<ge> 0 \<and> bin < of_nat nbin then
                                    (if nat \<lfloor>bin\<rfloor> < length weights
                                     then Inr (op event_weight (weights ! nat \<lfloor>bin\<rfloor>))
                                     else Inl OutOfBounds)
                                  else Inr (op event_weight 0))
                          coord))
      else
        (case sorted_edges edges of
           Some e \<Rightarrow> Inl e
         | None \<Rightarrow> Inl NonConstantBinWidth))"

text \<open>
  \<^verbatim>\<open>sparse_dense_op_impl\<close>. Modelled from the spec: the engine \<^verbatim>\<open>transform\<close> is not among
  the sources; it runs the closure for the units once and the closure for the data at
  every outer position \<open>p\<close>, on the events, the edges and the weights of that position
  (spec 4.8). \<open>rows\<close> holds these three for every outer position, \<open>counts\<close> is the unit of
  one count and \<open>unit_op\<close> the operation on units.
\<close>

definition sparse_dense_op_impl ::
  "('a \<Rightarrow> 'a \<Rightarrow> 'a) \<Rightarrow> ('u \<Rightarrow> 'u \<Rightarrow> 'u) \<Rightarrow> 'u \<Rightarrow> 'u \<Rightarrow> 'u \<Rightarrow> 'u
     \<Rightarrow> ('a::floor_ceiling list \<times> 'a list \<times> 'a list) list \<Rightarrow> error + 'u \<times> 'a list list" where
  "sparse_dense_op_impl op unit_op counts sparse_unit edges_unit weights_unit rows =
     (if sparse_unit \<noteq> edges_unit then Inl UnitsDoNotMatch
      else and_then
             (collect (map (\<lambda>(coord, edges, weights). apply_op_sparse_dense op coord edges weights)
                           rows))
             (\<lambda>out. Inr (unit_op counts weights_unit, out)))"

text \<open>What one event contributes, in the words of the specification (spec 4.7).\<close>

definition event_contribution ::
  "('a \<Rightarrow> 'a \<Rightarrow> 'a) \<Rightarrow> 'a::floor_ceiling list \<Rightarrow> 'a list \<Rightarrow> 'a \<Rightarrow> 'a" where
  "event_contribution op edges weights e =
     (let K = length edges - 1;
          offset' = edges ! 0;
          scale = of_nat K / (edges ! K - edges ! 0);
          bin = \<lfloor>(e - offset') * scale\<rfloor>
      in if 0 \<le> bin \<and> bin < int K then op 1 (weights ! nat bin) else op 1 0)"

section \<open>Basic facts about the model\<close>

lemma isContiguousIn_refl [simp]: "isContiguousIn dims dims"
  by (induction dims) auto

lemma deref_getSpan [simp]: "deref (m_model m) (getSpan m) = Inr (m_model m)"
  by (simp add: deref_def getSpan_def list_all_iff map_nth)

lemma and_then_Inr_iff: "and_then r f = Inr y \<longleftrightarrow> (\<exists>x. r = Inr x \<and> f x = Inr y)"
  by (cases r) auto


lemma std_transform_nil [simp]: "std_transform op [] b [] = Inr []"
  by (simp add: std_transform_def)


lemma concept_equal_iff:
  "concept_equal self other = Inr True \<longleftrightarrow>
     dimensions self = dimensions other \<and> dtype self = dtype other
     \<and> m_model self = m_model other"
  by (auto simp add: concept_equal_def isContiguous_def)

lemma length3E:
  assumes "length xs = 3"
  obtains a b c where "xs = [a, b, c]"
  using assms by (cases xs; cases "tl xs"; cases "tl (tl xs)") auto

section \<open>Rebinning onto as many bins as before\<close>

text \<open>
  Claim C1. A rebin should leave in each output bin \<open>j\<close> the sum over the input bins \<open>i\<close>
  of \<open>old[i] * overlap / (xo_high - xo_low)\<close>. \<^verbatim>\<open>rebin\<close> starts from a copy of the input
  and relies on \<^verbatim>\<open>setDimensions\<close> to replace the copied buffer by zeros, but
  \<^verbatim>\<open>setDimensions\<close> returns at once when the dimensions do not change, and
  \<^verbatim>\<open>rebinInner\<close> adds with \<^verbatim>\<open>+=\<close>. So when the new coordinate has as many bins as the
  old one, the result is the input plus the rebinned input: rebinning the data
  \<open>[10, 20, 30]\<close> on the edges \<open>[0, 1, 2, 3]\<close> to the same edges returns \<open>[20, 40, 60]\<close>,
  where the formula (and scenario 1 of the specification) gives \<open>[10, 20, 30]\<close>. With
  another number of bins the buffer is new and the two examples of the claim come out as
  stated: \<open>[5, 5]\<close> and \<open>[2, 2]\<close>.
\<close>

theorem rebin_same_bin_count_adds_onto_input:
  "rebin X
     \<lparr>m_tag = Data_Value, m_unit = metre, m_name = [],
      m_object = \<lparr>dimensions = [(X, 3)], dtype = Double, m_model = [10, 20, 30 :: rat]\<rparr>\<rparr>
     \<lparr>m_tag = Coord_X, m_unit = metre, m_name = [],
      m_object = \<lparr>dimensions = [(X, 4)], dtype = Double, m_model = [0, 1, 2, 3]\<rparr>\<rparr>
     \<lparr>m_tag = Coord_X, m_unit = metre, m_name = [],
      m_object = \<lparr>dimensions = [(X, 4)], dtype = Double, m_model = [0, 1, 2, 3]\<rparr>\<rparr>
   = Inr \<lparr>m_tag = Data_Value, m_unit = metre, m_name = [],
          m_object = \<lparr>dimensions = [(X, 3)], dtype = Double, m_model = [20, 40, 60]\<rparr>\<rparr>
   \<and> map (\<lambda>j. sum_list (map (\<lambda>i. contribution [0, 1, 2, 3] [0, 1, 2, 3] [10, 20, 30 :: rat] 0 i j)
                            [0..<3])) [0..<3]
       = [10, 20, 30]
   \<and> rebin X
       \<lparr>m_tag = Data_Value, m_unit = metre, m_name = [],
        m_object = \<lparr>dimensions = [(X, 1)], dtype = Double, m_model = [10 :: rat]\<rparr>\<rparr>
       \<lparr>m_tag = Coord_X, m_unit = metre, m_name = [],
        m_object = \<lparr>dimensions = [(X, 2)], dtype = Double, m_model = [0, 2]\<rparr>\<rparr>
       \<lparr>m_tag = Coord_X, m_unit = metre, m_name = [],
        m_object = \<lparr>dimensions = [(X, 3)], dtype = Double, m_model = [0, 1, 2]\<rparr>\<rparr>
     = Inr \<lparr>m_tag = Data_Value, m_unit = metre, m_name = [],
            m_object = \<lparr>dimensions = [(X, 2)], dtype = Double, m_model = [5, 5]\<rparr>\<rparr>
   \<and> rebin X
       \<lparr>m_tag = Data_Value, m_unit = metre, m_name = [],
        m_object = \<lparr>dimensions = [(X, 4)], dtype = Double, m_model = [1, 1, 1, 1 :: rat]\<rparr>\<rparr>
       \<lparr>m_tag = Coord_X, m_unit = metre, m_name = [],
        m_object = \<lparr>dimensions = [(X, 5)], dtype = Double, m_model = [0, 1, 2, 3, 4]\<rparr>\<rparr>
       \<lparr>m_tag = Coord_X, m_unit = metre, m_name = [],
        m_object = \<lparr>dimensions = [(X, 3)], dtype = Double, m_model = [0, 2, 4]\<rparr>\<rparr>
     = Inr \<lparr>m_tag = Data_Value, m_unit = metre, m_name = [],
            m_object = \<lparr>dimensions = [(X, 2)], dtype = Double, m_model = [2, 2]\<rparr>\<rparr>"
proof (intro conjI)
  show "rebin X
     \<lparr>m_tag = Data_Value, m_unit = metre, m_name = [],
      m_object = \<lparr>dimensions = [(X, 3)], dtype = Double, m_model = [10, 20, 30 :: rat]\<rparr>\<rparr>
     \<lparr>m_tag = Coord_X, m_unit = metre, m_name = [],
      m_object = \<lparr>dimensions = [(X, 4)], dtype = Double, m_model = [0, 1, 2, 3]\<rparr>\<rparr>
     \<lparr>m_tag = Coord_X, m_unit = metre, m_name = [],
      m_object = \<lparr>dimensions = [(X, 4)], dtype = Double, m_model = [0, 1, 2, 3]\<rparr>\<rparr>
   = Inr \<lparr>m_tag = Data_Value, m_unit = metre, m_name = [],
          m_object = \<lparr>dimensions = [(X, 3)], dtype = Double, m_model = [20, 40, 60]\<rparr>\<rparr>"
    by code_simp
  show "map (\<lambda>j. sum_list (map (\<lambda>i. contribution [0, 1, 2, 3] [0, 1, 2, 3] [10, 20, 30 :: rat] 0 i j)
                            [0..<3])) [0..<3]
       = [10, 20, 30]"
    by code_simp
  show "rebin X
       \<lparr>m_tag = Data_Value, m_unit = metre, m_name = [],
        m_object = \<lparr>dimensions = [(X, 1)], dtype = Double, m_model = [10 :: rat]\<rparr>\<rparr>
       \<lparr>m_tag = Coord_X, m_unit = metre, m_name = [],
        m_object = \<lparr>dimensions = [(X, 2)], dtype = Double, m_model = [0, 2]\<rparr>\<rparr>
       \<lparr>m_tag = Coord_X, m_unit = metre, m_name = [],
        m_object = \<lparr>dimensions = [(X, 3)], dtype = Double, m_model = [0, 1, 2]\<rparr>\<rparr>
     = Inr \<lparr>m_tag = Data_Value, m_unit = metre, m_name = [],
            m_object = \<lparr>dimensions = [(X, 2)], dtype = Double, m_model = [5, 5]\<rparr>\<rparr>"
    by code_simp
  show "rebin X
       \<lparr>m_tag = Data_Value, m_unit = metre, m_name = [],
        m_object = \<lparr>dimensions = [(X, 4)], dtype = Double, m_model = [1, 1, 1, 1 :: rat]\<rparr>\<rparr>
       \<lparr>m_tag = Coord_X, m_unit = metre, m_name = [],
        m_object = \<lparr>dimensions = [(X, 5)], dtype = Double, m_model = [0, 1, 2, 3, 4]\<rparr>\<rparr>
       \<lparr>m_tag = Coord_X, m_unit = metre, m_name = [],
        m_object = \<lparr>dimensions = [(X, 3)], dtype = Double, m_model = [0, 2, 4]\<rparr>\<rparr>
     = Inr \<lparr>m_tag = Data_Value, m_unit = metre, m_name = [],
            m_object = \<lparr>dimensions = [(X, 2)], dtype = Double, m_model = [2, 2]\<rparr>\<rparr>"
    by code_simp
qed

theorem rebin_same_bin_count_adds_onto_input_witness:
  "contains [(X, 3)] X \<and> contains [(X, 4)] X \<and> size_of [(X, 4)] X \<noteq> 0
   \<and> rebin X
     \<lparr>m_tag = Data_Value, m_unit = metre, m_name = [],
      m_object = \<lparr>dimensions = [(X, 3)], dtype = Double, m_model = [10, 20, 30 :: rat]\<rparr>\<rparr>
     \<lparr>m_tag = Coord_X, m_unit = metre, m_name = [],
      m_object = \<lparr>dimensions = [(X, 4)], dtype = Double, m_model = [0, 1, 2, 3]\<rparr>\<rparr>
     \<lparr>m_tag = Coord_X, m_unit = metre, m_name = [],
      m_object = \<lparr>dimensions = [(X, 4)], dtype = Double, m_model = [0, 1, 2, 3]\<rparr>\<rparr>
   = Inr \<lparr>m_tag = Data_Value, m_unit = metre, m_name = [],
          m_object = \<lparr>dimensions = [(X, 3)], dtype = Double, m_model = [20, 40, 60]\<rparr>\<rparr>"
  using conjunct1 [OF rebin_same_bin_count_adds_onto_input]
  by (simp add: contains_def labels_def)

section \<open>In-place arithmetic and failure\<close>

text \<open>
  Claim C2. An in-place operation that fails a precondition check should leave the unit,
  the dimensions and the elements of its left-hand side untouched. \<^verbatim>\<open>times_equals\<close> does
  not: it calls \<^verbatim>\<open>setUnit\<close> before \<^verbatim>\<open>data() *= other.data()\<close>, so when the element
  kinds of the two operands differ the call throws "Underlying data types do not match"
  and the left-hand side is left with the product unit. Here a Variable of doubles in
  metres is multiplied by a Variable of 64-bit integers in seconds.
\<close>

theorem times_equals_kind_mismatch_changes_unit:
  "times_equals
     \<lparr>m_tag = Data_Value, m_unit = metre, m_name = [],
      m_object = \<lparr>dimensions = [(X, 1)], dtype = Double, m_model = [2 :: int]\<rparr>\<rparr>
     \<lparr>m_tag = Data_Int, m_unit = second, m_name = [],
      m_object = \<lparr>dimensions = [(X, 1)], dtype = Int64, m_model = [3]\<rparr>\<rparr>
   = Threw UnderlyingDataTypesDoNotMatch
       \<lparr>m_tag = Data_Value, m_unit = Unit 1 1 0, m_name = [],
        m_object = \<lparr>dimensions = [(X, 1)], dtype = Double, m_model = [2]\<rparr>\<rparr>
   \<and> Unit 1 1 0 \<noteq> metre"
  by (simp add: times_equals_def contains_dims_def valueTypeIs_def apply_op_def
        metre_def second_def times_Unit_def)

section \<open>Equality of Variables\<close>

text \<open>
  Claim C5, as stated, fails: two Variables with equal units and names, whose dimension
  lists are permutations of each other and whose elements agree when the right-hand side
  is read in the iteration order of the left-hand side, compare unequal, because
  \<^verbatim>\<open>Variable::operator==\<close> returns false as soon as the two Dimensions values differ.
\<close>

theorem equality_rejects_permuted_axes:
  "equal_up_to_axis_order
     \<lparr>m_tag = Data_Value, m_unit = metre, m_name = [],
      m_object = \<lparr>dimensions = [(X, 2), (Y, 3)], dtype = Double,
                  m_model = [1, 2, 3, 4, 5, 6 :: int]\<rparr>\<rparr>
     \<lparr>m_tag = Data_Value, m_unit = metre, m_name = [],
      m_object = \<lparr>dimensions = [(Y, 3), (X, 2)], dtype = Double,
                  m_model = [1, 3, 5, 2, 4, 6]\<rparr>\<rparr>
   \<and> Variable_equal False
     \<lparr>m_tag = Data_Value, m_unit = metre, m_name = [],
      m_object = \<lparr>dimensions = [(X, 2), (Y, 3)], dtype = Double,
                  m_model = [1, 2, 3, 4, 5, 6 :: int]\<rparr>\<rparr>
     \<lparr>m_tag = Data_Value, m_unit = metre, m_name = [],
      m_object = \<lparr>dimensions = [(Y, 3), (X, 2)], dtype = Double,
                  m_model = [1, 3, 5, 2, 4, 6]\<rparr>\<rparr>
     = Inr False"
  by (auto simp add: equal_up_to_axis_order_def Variable_equal_def deref_def stride_def
        contains_def labels_def upt_conv_Cons)

text \<open>
  Claim C5, amended. \<open>a == b\<close> returns true if and only if the names agree, the units
  agree and, unless the two handles share one concept, the tags agree, the Dimensions
  are the same sequence of axes (in the same order), the element types agree and the
  elements agree position by position.
\<close>

theorem equality_compares_axes_in_order:
  "Variable_equal same_object a b = Inr True \<longleftrightarrow>
     m_name a = m_name b \<and> m_unit a = m_unit b
     \<and> (same_object
        \<or> (m_tag a = m_tag b
           \<and> dimensions (m_object a) = dimensions (m_object b)
           \<and> dtype (m_object a) = dtype (m_object b)
           \<and> m_model (m_object a) = m_model (m_object b)))"
  by (auto simp add: Variable_equal_def concept_equal_iff)

theorem equality_compares_axes_in_order_witness:
  "Variable_equal False
     \<lparr>m_tag = Data_Value, m_unit = metre, m_name = [],
      m_object = \<lparr>dimensions = [(X, 2), (Y, 3)], dtype = Double,
                  m_model = [1, 2, 3, 4, 5, 6 :: int]\<rparr>\<rparr>
     \<lparr>m_tag = Data_Value, m_unit = metre, m_name = [],
      m_object = \<lparr>dimensions = [(X, 2), (Y, 3)], dtype = Double,
                  m_model = [1, 2, 3, 4, 5, 6]\<rparr>\<rparr>
     = Inr True"
  using equality_compares_axes_in_order [of False
     "\<lparr>m_tag = Data_Value, m_unit = metre, m_name = [],
      m_object = \<lparr>dimensions = [(X, 2), (Y, 3)], dtype = Double,
                  m_model = [1, 2, 3, 4, 5, 6 :: int]\<rparr>\<rparr>"
     "\<lparr>m_tag = Data_Value, m_unit = metre, m_name = [],
      m_object = \<lparr>dimensions = [(X, 2), (Y, 3)], dtype = Double,
                  m_model = [1, 2, 3, 4, 5, 6 :: int]\<rparr>\<rparr>"]
  by simp

section \<open>Concatenation along a new axis\<close>

text \<open>
  Claim C4. For every two Variables \<open>a\<close> and \<open>b\<close> with dimensions \<open>{X:3}\<close> that can be
  concatenated (same tag, unit, name and element type), \<open>concatenate(a, b, Y)\<close> returns a
  Variable whose dimensions, written from the outermost axis to the innermost, are
  \<open>{Y:2, X:3}\<close>: \<^verbatim>\<open>add\<close> appends \<open>Y\<close> with extent 2 to the stored axes, which makes it the
  outermost axis with stride 3, \<open>X\<close> keeps extent 3 and stride 1, and the buffer is the
  elements of \<open>a\<close> followed by those of \<open>b\<close>.
\<close>

theorem concatenate_new_axis_is_outermost:
  fixes a b :: "('u, 'a::zero) Variable"
  assumes "dimensions (m_object a) = [(X, 3)]" "dimensions (m_object b) = [(X, 3)]"
    and "length (m_model (m_object a)) = 3" "length (m_model (m_object b)) = 3"
    and "m_tag a = m_tag b" "m_unit a = m_unit b" "m_name a = m_name b"
    and "dtype (m_object a) = dtype (m_object b)"
  shows "\<exists>r. concatenate a b Y = Inr r
           \<and> outermost_first (dimensions (m_object r)) = [(Y, 2), (X, 3)]
           \<and> dimensions (m_object r) = add [(X, 3)] Y 2
           \<and> offset (dimensions (m_object r)) Y = 3
           \<and> offset (dimensions (m_object r)) X = 1
           \<and> m_model (m_object r) = m_model (m_object a) @ m_model (m_object b)"
proof -
  obtain a0 a1 a2 where a: "m_model (m_object a) = [a0, a1, a2]"
    using assms(3) by (rule length3E)
  obtain b0 b1 b2 where b: "m_model (m_object b) = [b0, b1, b2]"
    using assms(4) by (rule length3E)
  show ?thesis
    using assms a b
    by (simp add: concatenate_def Let_def contains_def labels_def count_def add_def
          setDimensions_def clone_dims_def volume_def copy_def resize_def getView_slice_def
          makeVariableView_def isContiguous_def getSpan_slice_def makeSpan_def
          stride_def deref_def std_copy_def outermost_first_def upt_conv_Cons
          numeral_3_eq_3)
qed

theorem concatenate_new_axis_is_outermost_witness:
  "\<exists>r. concatenate
         \<lparr>m_tag = Data_Value, m_unit = metre, m_name = [],
          m_object = \<lparr>dimensions = [(X, 3)], dtype = Double, m_model = [1, 2, 3 :: int]\<rparr>\<rparr>
         \<lparr>m_tag = Data_Value, m_unit = metre, m_name = [],
          m_object = \<lparr>dimensions = [(X, 3)], dtype = Double, m_model = [4, 5, 6]\<rparr>\<rparr> Y
       = Inr r
     \<and> outermost_first (dimensions (m_object r)) = [(Y, 2), (X, 3)]
     \<and> m_model (m_object r) = [1, 2, 3, 4, 5, 6]"
  using concatenate_new_axis_is_outermost [of
         "\<lparr>m_tag = Data_Value, m_unit = metre, m_name = [],
          m_object = \<lparr>dimensions = [(X, 3)], dtype = Double, m_model = [1, 2, 3 :: int]\<rparr>\<rparr>"
         "\<lparr>m_tag = Data_Value, m_unit = metre, m_name = [],
          m_object = \<lparr>dimensions = [(X, 3)], dtype = Double, m_model = [4, 5, 6 :: int]\<rparr>\<rparr>"]
  by auto

section \<open>Views, spans and coordinates\<close>

subsection \<open>Lists of blocks\<close>

lemma nth_concat_uniform:
  assumes "\<And>x. x \<in> set xs \<Longrightarrow> length (f x) = n" and "k < n * length xs"
  shows "concat (map f xs) ! k = f (xs ! (k div n)) ! (k mod n)"
  using assms
proof (induction xs arbitrary: k)
  case Nil
  then show ?case by simp
next
  case (Cons x xs)
  have n: "0 < n" using Cons.prems(2) by (cases n) auto
  show ?case
  proof (cases "k < n")
    case True
    then show ?thesis using Cons.prems(1) [of x] by (simp add: nth_append)
  next
    case False
    then have "k - n < n * length xs" using Cons.prems(2) by simp
    then have "concat (map f xs) ! (k - n) = f (xs ! ((k - n) div n)) ! ((k - n) mod n)"
      using Cons.IH Cons.prems(1) by simp
    moreover have "k div n = Suc ((k - n) div n)" "k mod n = (k - n) mod n"
      using False n by (simp_all add: le_div_geq le_mod_geq)
    ultimately show ?thesis
      using False Cons.prems(1) [of x] by (simp add: nth_append)
  qed
qed

lemma length_concat_uniform:
  assumes "\<And>x. x \<in> set xs \<Longrightarrow> length (f x) = n"
  shows "length (concat (map f xs)) = n * length xs"
  using assms by (induction xs) auto

subsection \<open>Dimensions\<close>

lemma contains_Cons [simp]: "contains ((l, n) # rest) l' \<longleftrightarrow> l = l' \<or> contains rest l'"
  by (auto simp add: contains_def labels_def)

lemma contains_Nil [simp]: "\<not> contains [] l"
  by (simp add: contains_def labels_def)

lemma labels_Cons [simp]: "labels ((l, n) # rest) = l # labels rest"
  by (simp add: labels_def)

lemma labels_Nil [simp]: "labels [] = []"
  by (simp add: labels_def)

lemma contains_labels: "contains dims l \<longleftrightarrow> l \<in> set (labels dims)"
  by (simp add: contains_def)

lemma volume_Nil [simp]: "volume [] = 1"
  by (simp add: volume_def)

lemma volume_Cons_simp [simp]: "volume ((l, n) # rest) = n * volume rest"
  by (simp add: volume_def)

lemma stride_Cons_same [simp]: "stride ((l, n) # rest) l = 1"
  by (simp add: stride_def)

lemma stride_Cons_other: "l' \<noteq> l \<Longrightarrow> stride ((l, n) # rest) l' = n * stride rest l'"
  by (simp add: stride_def)

lemma stride_absent: "\<not> contains parent l \<Longrightarrow> stride parent l = 0"
  by (simp add: stride_def)

lemma stride_offset: "contains parent l \<Longrightarrow> stride parent l = offset parent l"
  by (simp add: stride_def)

subsection \<open>Views position by position\<close>

lemma length_view_indices [simp]: "length (view_indices target parent base) = volume target"
proof (induction target)
  case Nil
  then show ?case by simp
next
  case (Cons p target)
  obtain l n where p: "p = (l, n)" by (cases p)
  have "length (view_indices ((l, n) # target) parent base)
          = n * length (view_indices target parent base)"
    by (simp only: view_indices.simps, rule length_concat_uniform) simp
  then show ?case using Cons p by simp
qed

lemma lin_cong:
  "(\<And>l. l \<in> set (labels target) \<Longrightarrow> c l = c' l) \<Longrightarrow> lin parent target c = lin parent target c'"
  by (induction target) auto

lemma nth_view_indices:
  assumes "distinct (labels target)" "k < volume target"
  shows "view_indices target parent base ! k = base + lin parent target (decode target k)"
  using assms
proof (induction target arbitrary: k)
  case Nil
  then show ?case by simp
next
  case (Cons p target)
  obtain l n where p: "p = (l, n)" by (cases p)
  have d: "distinct (labels target)" "l \<notin> set (labels target)"
    using Cons.prems(1) p by simp_all
  have k: "k < n * volume target" using Cons.prems(2) p by simp
  then have n: "0 < n" by (cases n) auto
  have kd: "k div n < volume target"
    using k n by (simp add: less_mult_imp_div_less mult.commute)
  let ?V = "view_indices target parent base"
  have "view_indices ((l, n) # target) parent base ! k
          = map (\<lambda>i. ?V ! (k div n) + i * stride parent l) [0..<n] ! (k mod n)"
    using k by (simp only: view_indices.simps)
               (subst nth_concat_uniform [where n = n], simp_all)
  also have "\<dots> = ?V ! (k div n) + (k mod n) * stride parent l"
    using n by simp
  also have "?V ! (k div n) = base + lin parent target (decode target (k div n))"
    using Cons.IH [OF d(1) kd] .
  finally have "view_indices ((l, n) # target) parent base ! k
      = base + ((k mod n) * stride parent l + lin parent target (decode target (k div n)))"
    by simp
  moreover have "lin parent ((l, n) # target) (decode ((l, n) # target) k)
      = (k mod n) * stride parent l + lin parent target (decode target (k div n))"
  proof -
    have a: "decode ((l, n) # target) k l = k mod n" by simp
    have b: "lin parent target (decode ((l, n) # target) k)
               = lin parent target (decode target (k div n))"
      by (rule lin_cong) (use d(2) in auto)
    show ?thesis unfolding lin.simps a b ..
  qed
  ultimately show ?case unfolding p by (simp only:)
qed

subsection \<open>Coordinates and positions\<close>

lemma index_of_cong:
  "(\<And>l. l \<in> set (labels dims) \<Longrightarrow> c l = c' l) \<Longrightarrow> index_of dims c = index_of dims c'"
  by (induction dims) auto

lemma in_range_cong:
  "(\<And>l. l \<in> set (labels dims) \<Longrightarrow> c l = c' l) \<Longrightarrow> in_range dims c = in_range dims c'"
  by (induction dims) (auto simp add: in_range_def)

lemma in_range_Cons [simp]:
  "in_range ((l, n) # rest) c \<longleftrightarrow> c l < n \<and> in_range rest c"
  by (simp add: in_range_def)

lemma in_range_Nil [simp]: "in_range [] c"
  by (simp add: in_range_def)

lemma in_range_size_of:
  "in_range dims c \<Longrightarrow> contains dims l \<Longrightarrow> distinct (labels dims) \<Longrightarrow> c l < size_of dims l"
  by (induction dims) auto

lemma size_of_Cons_other: "l' \<noteq> l \<Longrightarrow> size_of ((l, n) # rest) l' = size_of rest l'"
  by simp

lemma in_range_iff:
  "distinct (labels dims) \<Longrightarrow>
   in_range dims c \<longleftrightarrow> (\<forall>l \<in> set (labels dims). c l < size_of dims l)"
proof (induction dims)
  case Nil
  then show ?case by simp
next
  case (Cons p dims)
  obtain a b where p: "p = (a, b)" by (cases p)
  have d: "distinct (labels dims)" "a \<notin> set (labels dims)" using Cons.prems p by simp_all
  have s: "\<And>l. l \<in> set (labels dims) \<Longrightarrow> size_of ((a, b) # dims) l = size_of dims l"
    using d(2) by auto
  have "in_range ((a, b) # dims) c \<longleftrightarrow> c a < b \<and> (\<forall>l \<in> set (labels dims). c l < size_of dims l)"
    using Cons.IH [OF d(1)] by simp
  also have "\<dots> \<longleftrightarrow> (\<forall>l \<in> set (labels ((a, b) # dims)). c l < size_of ((a, b) # dims) l)"
    using s by (simp del: size_of.simps) simp
  finally show ?case unfolding p .
qed

lemma mixed_radix_less:
  fixes a b n m :: nat
  assumes "a < n" "b < m"
  shows "a + n * b < n * m"
proof -
  have "a + n * b < n + n * b" using assms(1) by simp
  also have "\<dots> = n * (b + 1)" by simp
  also have "\<dots> \<le> n * m" using assms(2) by (intro mult_le_mono2) simp
  finally show ?thesis .
qed

lemma index_of_less: "in_range dims c \<Longrightarrow> index_of dims c < volume dims"
  by (induction dims) (auto simp add: mixed_radix_less)

lemma decode_in_range_index:
  assumes "distinct (labels dims)" "k < volume dims"
  shows "in_range dims (decode dims k) \<and> index_of dims (decode dims k) = k"
  using assms
proof (induction dims arbitrary: k)
  case Nil
  then show ?case by simp
next
  case (Cons p dims)
  obtain l n where p: "p = (l, n)" by (cases p)
  have d: "distinct (labels dims)" "l \<notin> set (labels dims)"
    using Cons.prems(1) p by simp_all
  have k: "k < n * volume dims" using Cons.prems(2) p by simp
  then have n: "0 < n" by (cases n) auto
  have kd: "k div n < volume dims"
    using k n by (simp add: less_mult_imp_div_less mult.commute)
  have IH: "in_range dims (decode dims (k div n))" "index_of dims (decode dims (k div n)) = k div n"
    using Cons.IH [OF d(1) kd] by simp_all
  have a: "decode ((l, n) # dims) k l = k mod n" by simp
  have agree: "\<And>l'. l' \<in> set (labels dims) \<Longrightarrow> decode ((l, n) # dims) k l' = decode dims (k div n) l'"
    using d(2) by auto
  have r: "in_range dims (decode ((l, n) # dims) k)"
    using in_range_cong [of dims "decode ((l, n) # dims) k" "decode dims (k div n)"] agree IH(1)
    by blast
  have i: "index_of dims (decode ((l, n) # dims) k) = k div n"
    using index_of_cong [of dims "decode ((l, n) # dims) k" "decode dims (k div n)"] agree IH(2)
    by simp
  have "in_range ((l, n) # dims) (decode ((l, n) # dims) k)"
    unfolding in_range_Cons a using r n by simp
  moreover have "index_of ((l, n) # dims) (decode ((l, n) # dims) k) = k"
    unfolding index_of.simps a i by simp
  ultimately show ?case unfolding p by blast
qed

lemma decode_index_of:
  assumes "distinct (labels dims)" "in_range dims c" "l \<in> set (labels dims)"
  shows "decode dims (index_of dims c) l = c l"
  using assms
proof (induction dims)
  case Nil
  then show ?case by simp
next
  case (Cons p dims)
  obtain l0 n where p: "p = (l0, n)" by (cases p)
  have c0: "c l0 < n" and r: "in_range dims c" using Cons.prems(2) p by simp_all
  have d: "distinct (labels dims)" "l0 \<notin> set (labels dims)" using Cons.prems(1) p by simp_all
  have m: "(c l0 + n * index_of dims c) mod n = c l0" "(c l0 + n * index_of dims c) div n = index_of dims c"
    using c0 by simp_all
  show ?case
  proof (cases "l = l0")
    case True
    then show ?thesis using p m by simp
  next
    case False
    then have "l \<in> set (labels dims)" using Cons.prems(3) p by simp
    then show ?thesis using Cons.IH [OF d(1) r] False p m by simp
  qed
qed

lemma index_of_inj:
  assumes "distinct (labels dims)" "in_range dims c" "in_range dims c'"
    and "index_of dims c = index_of dims c'" and "l \<in> set (labels dims)"
  shows "c l = c' l"
  using decode_index_of [OF assms(1) assms(2) assms(5)]
        decode_index_of [OF assms(1) assms(3) assms(5)] assms(4)
  by simp

lemma index_of_update:
  assumes "distinct (labels dims)" "contains dims d"
  shows "index_of dims (c(d := v)) = index_of dims (c(d := 0)) + v * offset dims d"
  using assms
proof (induction dims)
  case Nil
  then show ?case by simp
next
  case (Cons p dims)
  obtain l n where p: "p = (l, n)" by (cases p)
  have dd: "distinct (labels dims)" "l \<notin> set (labels dims)" using Cons.prems(1) p by simp_all
  show ?case
  proof (cases "l = d")
    case True
    have e: "index_of dims (c(d := v)) = index_of dims (c(d := 0))"
      by (rule index_of_cong) (use dd(2) True in auto)
    have "index_of ((d, n) # dims) (c(d := v)) = v + n * index_of dims (c(d := v))"
      by (simp only: index_of.simps fun_upd_same)
    moreover have "index_of ((d, n) # dims) (c(d := 0)) = 0 + n * index_of dims (c(d := 0))"
      by (simp only: index_of.simps fun_upd_same)
    moreover have "offset ((d, n) # dims) d = 1" by simp
    ultimately show ?thesis unfolding p True e
      by (simp only: mult.right_neutral add.left_neutral add.commute)
  next
    case False
    then have "contains dims d" using Cons.prems(2) p by simp
    then have IH: "index_of dims (c(d := v)) = index_of dims (c(d := 0)) + v * offset dims d"
      by (rule Cons.IH [OF dd(1)])
    have "index_of ((l, n) # dims) (c(d := v)) = c l + n * index_of dims (c(d := v))"
      using False by (simp only: index_of.simps fun_upd_apply if_False)
    moreover have "index_of ((l, n) # dims) (c(d := 0)) = c l + n * index_of dims (c(d := 0))"
      using False by (simp only: index_of.simps fun_upd_apply if_False)
    moreover have "offset ((l, n) # dims) d = n * offset dims d" using False by simp
    ultimately show ?thesis unfolding p IH by (simp only: algebra_simps)
  qed
qed

lemma index_of_absent:
  "\<not> contains dims d \<Longrightarrow> index_of dims (c(d := v)) = index_of dims c"
  by (rule index_of_cong) (auto simp add: contains_def)

lemma lin_Cons_parent:
  "l \<notin> set (labels target) \<Longrightarrow> lin ((l, n) # parent) target c = n * lin parent target c"
  by (induction target) (auto simp add: stride_Cons_other algebra_simps)

lemma lin_self: "distinct (labels dims) \<Longrightarrow> lin dims dims c = index_of dims c"
proof (induction dims)
  case Nil
  then show ?case by simp
next
  case (Cons p dims)
  obtain l n where p: "p = (l, n)" by (cases p)
  then show ?case using Cons by (simp add: lin_Cons_parent)
qed

lemma lin_as_sum:
  "distinct (labels target) \<Longrightarrow>
   lin parent target c = (\<Sum>l \<in> set (labels target). c l * stride parent l)"
  by (induction target) auto

lemma lin_index_of:
  assumes "distinct (labels target)" "distinct (labels parent)"
    and "\<And>l. l \<in> set (labels parent) \<Longrightarrow> l \<in> set (labels target) \<Longrightarrow> c' l = c l"
    and "\<And>l. l \<in> set (labels parent) \<Longrightarrow> l \<notin> set (labels target) \<Longrightarrow> c' l = 0"
  shows "lin parent target c = index_of parent c'"
proof -
  let ?T = "set (labels target)" and ?P = "set (labels parent)"
  have "lin parent target c = (\<Sum>l \<in> ?T. c l * stride parent l)"
    using assms(1) by (rule lin_as_sum)
  also have "\<dots> = (\<Sum>l \<in> ?T \<inter> ?P. c l * stride parent l)"
    by (rule sum.mono_neutral_right) (auto simp add: stride_absent contains_def)
  also have "\<dots> = (\<Sum>l \<in> ?T \<inter> ?P. c' l * stride parent l)"
    by (rule sum.cong) (auto simp add: assms(3))
  also have "\<dots> = (\<Sum>l \<in> ?P. c' l * stride parent l)"
    by (rule sum.mono_neutral_left) (use assms(4) in force)+
  also have "\<dots> = lin parent parent c'"
    using assms(2) by (simp add: lin_as_sum)
  also have "\<dots> = index_of parent c'"
    using assms(2) by (rule lin_self)
  finally show ?thesis .
qed

subsection \<open>Writing through a sequence of positions\<close>

lemma length_fold_write [simp]:
  "length (fold (\<lambda>(i, v) b. b[i := v]) ps buf) = length buf"
  by (induction ps arbitrary: buf) auto

lemma fold_write_other:
  "j \<notin> set (map fst ps) \<Longrightarrow> fold (\<lambda>(i, v) b. b[i := v]) ps buf ! j = buf ! j"
  by (induction ps arbitrary: buf) auto

lemma fold_write_nth:
  assumes "distinct is" "length is = length vs" "k < length is" "is ! k < length buf"
  shows "fold (\<lambda>(i, v) b. b[i := v]) (zip is vs) buf ! (is ! k) = vs ! k"
  using assms
proof (induction "is" arbitrary: vs buf k)
  case Nil
  then show ?case by simp
next
  case (Cons i "is")
  then obtain v vs' where vs: "vs = v # vs'" by (cases vs) auto
  show ?case
  proof (cases k)
    case 0
    have "i \<notin> set (map fst (zip is vs'))"
      using Cons.prems(1) by (auto dest: set_zip_leftD)
    then have "fold (\<lambda>(i, v) b. b[i := v]) (zip is vs') (buf[i := v]) ! i = buf[i := v] ! i"
      by (rule fold_write_other)
    then show ?thesis using 0 vs Cons.prems(4) by simp
  next
    case (Suc k')
    then show ?thesis using Cons vs by simp
  qed
qed

lemma std_copy_spec:
  assumes "length vals = length target" "distinct target" "\<forall>i \<in> set target. i < length buf"
  shows "\<exists>buf'. std_copy vals target buf = Inr buf' \<and> length buf' = length buf
           \<and> (\<forall>k < length target. buf' ! (target ! k) = vals ! k)
           \<and> (\<forall>j. j \<notin> set target \<longrightarrow> buf' ! j = buf ! j)"
proof -
  let ?b = "fold (\<lambda>(i, v) b. b[i := v]) (zip target vals) buf"
  have "std_copy vals target buf = Inr ?b"
    using assms by (simp add: std_copy_def list_all_iff)
  moreover have "\<forall>k < length target. ?b ! (target ! k) = vals ! k"
    using assms by (auto intro!: fold_write_nth)
  moreover have "\<forall>j. j \<notin> set target \<longrightarrow> ?b ! j = buf ! j"
    using assms(1) by (auto intro!: fold_write_other)
  ultimately show ?thesis by simp
qed

subsection \<open>Contiguous blocks\<close>

lemma isContiguousIn_labels:
  "isContiguousIn target parent \<Longrightarrow> set (labels target) \<subseteq> set (labels parent)"
  by (induction target parent rule: isContiguousIn.induct) (auto split: if_splits)

lemma isContiguousIn_length:
  "isContiguousIn target parent \<Longrightarrow> length target \<le> length parent"
  by (induction target parent rule: isContiguousIn.induct) (auto split: if_splits)

lemma lin_contiguous:
  "distinct (labels parent) \<Longrightarrow> isContiguousIn target parent \<Longrightarrow>
   lin parent target c = index_of target c"
proof (induction target parent rule: isContiguousIn.induct)
  case (1 parent)
  then show ?case by simp
next
  case (2 l n rest)
  then show ?case by simp
next
  case (3 l n rest l' n' parent)
  then have l: "l = l'" by simp
  have d: "distinct (labels parent)" "l \<notin> set (labels parent)" using "3.prems"(1) l by simp_all
  show ?case
  proof (cases "rest = []")
    case True
    then show ?thesis using l by simp
  next
    case False
    then have c: "n = n'" "isContiguousIn rest parent" using "3.prems"(2) by simp_all
    have "l \<notin> set (labels rest)" using isContiguousIn_labels [OF c(2)] d(2) by auto
    then have "lin ((l', n') # parent) rest c = n' * lin parent rest c"
      using l by (simp add: lin_Cons_parent)
    then show ?thesis using "3.IH" [OF False d(1) c(2)] l c(1) by simp
  qed
qed

lemma isContiguousIn_distinct:
  "distinct (labels parent) \<Longrightarrow> isContiguousIn target parent \<Longrightarrow> distinct (labels target)"
proof (induction target parent rule: isContiguousIn.induct)
  case (3 l n rest l' n' parent)
  show ?case
  proof (cases "rest = []")
    case True
    then show ?thesis by simp
  next
    case False
    then have c: "l = l'" "isContiguousIn rest parent" using "3.prems"(2) by simp_all
    have "l \<notin> set (labels rest)" using isContiguousIn_labels [OF c(2)] "3.prems"(1) c(1) by auto
    then show ?thesis using "3.IH" [OF False] "3.prems"(1) c(2) by simp
  qed
qed simp_all

lemma view_contiguous:
  assumes "distinct (labels parent)" "isContiguousIn target parent"
  shows "view_indices target parent base = [base..<base + volume target]"
proof (rule nth_equalityI)
  show "length (view_indices target parent base) = length [base..<base + volume target]" by simp
next
  fix k assume "k < length (view_indices target parent base)"
  then have k: "k < volume target" by simp
  have dt: "distinct (labels target)" using assms by (rule isContiguousIn_distinct)
  have "view_indices target parent base ! k = base + index_of target (decode target k)"
    using nth_view_indices [OF dt k] lin_contiguous [OF assms] by simp
  then show "view_indices target parent base ! k = [base..<base + volume target] ! k"
    using decode_in_range_index [OF dt k] k by simp
qed

lemma view_self: "distinct (labels dims) \<Longrightarrow> view_indices dims dims base = [base..<base + volume dims]"
  by (rule view_contiguous) simp_all

subsection \<open>resize, erase and add\<close>

lemma labels_resize [simp]: "labels (resize dims d n) = labels dims"
  by (induction dims) (auto simp add: resize_def labels_def)

lemma contains_resize [simp]: "contains (resize dims d n) l = contains dims l"
  by (simp add: contains_def)

lemma length_resize [simp]: "length (resize dims d n) = length dims"
  by (simp add: resize_def)

lemma resize_Nil [simp]: "resize [] d n = []"
  by (simp add: resize_def)

lemma resize_Cons:
  "resize ((l, m) # rest) d n = (if l = d then (l, n) else (l, m)) # resize rest d n"
  by (simp add: resize_def)

lemma size_of_resize:
  "size_of (resize dims d n) l = (if l = d \<and> contains dims d then n else size_of dims l)"
  by (induction dims) (auto simp add: resize_Cons)

lemma size_of_absent: "\<not> contains dims l \<Longrightarrow> size_of dims l = 0"
  by (induction dims) auto

lemma dims_eqI:
  assumes "labels A = labels B" "\<And>l. l \<in> set (labels A) \<Longrightarrow> size_of A l = size_of B l"
    and "distinct (labels A)"
  shows "A = B"
  using assms
proof (induction A arbitrary: B)
  case Nil
  then show ?case by (simp add: labels_def)
next
  case (Cons p A)
  obtain l n where p: "p = (l, n)" by (cases p)
  obtain l' n' B' where B: "B = (l', n') # B'"
    using Cons.prems(1) p by (cases B) (auto simp add: labels_def)
  have l: "l' = l" "labels A = labels B'" using Cons.prems(1) p B by simp_all
  have d: "distinct (labels A)" "l \<notin> set (labels A)" using Cons.prems(3) p by simp_all
  have "n = n'" using Cons.prems(2) [of l] p B l by simp
  moreover have "A = B'"
  proof (rule Cons.IH [OF l(2) _ d(1)])
    fix x assume x: "x \<in> set (labels A)"
    then have "x \<noteq> l" using d(2) by auto
    then show "size_of A x = size_of B' x"
      using Cons.prems(2) [of x] x p B l by simp
  qed
  ultimately show ?case using p B l by simp
qed

lemma resize_same:
  "distinct (labels dims) \<Longrightarrow> size_of dims d = n \<Longrightarrow> resize dims d n = dims"
  by (rule dims_eqI) (auto simp add: size_of_resize)

lemma in_range_less_size:
  "distinct (labels dims) \<Longrightarrow> in_range dims c \<Longrightarrow> l \<in> set (labels dims) \<Longrightarrow> c l < size_of dims l"
  by (simp add: in_range_iff)

lemma labels_erase: "labels (erase dims d) = removeAll d (labels dims)"
  by (induction dims) (auto simp add: erase_def labels_def)

lemma contains_erase [simp]: "contains (erase dims d) l \<longleftrightarrow> l \<noteq> d \<and> contains dims l"
  by (auto simp add: contains_def labels_erase)

lemma size_of_erase: "l \<noteq> d \<Longrightarrow> size_of (erase dims d) l = size_of dims l"
  by (induction dims) (auto simp add: erase_def)

lemma distinct_erase: "distinct (labels dims) \<Longrightarrow> distinct (labels (erase dims d))"
  by (simp add: labels_erase distinct_removeAll)

lemma labels_add [simp]: "labels (add dims d n) = labels dims @ [d]"
  by (simp add: add_def labels_def)

lemma size_of_append:
  "size_of (A @ B) l = (if contains A l then size_of A l else size_of B l)"
  by (induction A) auto

lemma size_of_add:
  "size_of (add dims d n) l = (if contains dims l then size_of dims l else if l = d then n else 0)"
  by (simp add: add_def size_of_append)

lemma contains_add [simp]: "contains (add dims d n) l \<longleftrightarrow> contains dims l \<or> l = d"
  by (auto simp add: contains_def)

subsection \<open>A contiguous span is the view of the same block\<close>

lemma isContiguousIn_labels_take:
  "isContiguousIn target parent \<Longrightarrow> labels target = take (length target) (labels parent)"
  by (induction target parent rule: isContiguousIn.induct) (auto split: if_splits)

lemma contiguous_same_labels:
  assumes "distinct (labels parent)" "isContiguousIn target parent"
    and "set (labels parent) \<subseteq> set (labels target)"
  shows "labels target = labels parent"
proof -
  have "distinct (labels target)" using assms(1,2) by (rule isContiguousIn_distinct)
  then have "card (set (labels target)) = length (labels target)" by (rule distinct_card)
  moreover have "card (set (labels parent)) = length (labels parent)"
    using assms(1) by (rule distinct_card)
  moreover have "card (set (labels parent)) \<le> card (set (labels target))"
    using assms(3) by (intro card_mono) simp_all
  ultimately have "length (labels parent) \<le> length (labels target)" by simp
  then have "length parent \<le> length target" by (simp add: labels_def)
  then have "length target = length parent"
    using isContiguousIn_length [OF assms(2)] by simp
  then show ?thesis using isContiguousIn_labels_take [OF assms(2)] by (simp add: labels_def)
qed

lemma volume_contiguous_section:
  assumes "distinct (labels parent)" "isContiguousIn target parent"
    and "labels target = labels parent" "contains parent d"
    and "size_of target d \<noteq> size_of parent d"
  shows "volume target = size_of target d * offset parent d"
  using assms
proof (induction target parent rule: isContiguousIn.induct)
  case (1 parent)
  then show ?case by (auto simp add: contains_def)
next
  case (2 l n rest)
  then show ?case by simp
next
  case (3 l n rest l' n' parent)
  have l: "l = l'" using "3.prems"(2) by simp
  have lab: "labels rest = labels parent" using "3.prems"(3) by simp
  show ?case
  proof (cases "rest = []")
    case True
    then have "parent = []" using lab by (simp add: labels_def)
    then show ?thesis using True l "3.prems"(4) by simp
  next
    case False
    then have c: "n = n'" "isContiguousIn rest parent" using "3.prems"(2) by simp_all
    have d: "d \<noteq> l'" using "3.prems"(5) c(1) l by auto
    then have "volume rest = size_of rest d * offset parent d"
      using "3.IH" [OF False _ c(2) lab] "3.prems" l by simp
    then show ?thesis using d l c(1) by simp
  qed
qed

lemma makeSpan_nat:
  assumes "b \<le> e"
  shows "makeSpan n dims d b e =
     (if \<not> contains dims d \<and> (b \<noteq> 0 \<or> e \<noteq> 1) then Inl SliceIndexOutOfRange
      else if \<not> contains dims d \<or> size_of dims d = e - b then Inr [0..<n]
      else Inr [b * offset dims d..<e * offset dims d])"
proof -
  have "int (size_of dims d) = int e - int b \<longleftrightarrow> size_of dims d = e - b"
    using assms by linarith
  then show ?thesis unfolding makeSpan_def by presburger
qed

lemma span_is_view:
  assumes dP: "distinct (labels parent)" and ci: "isContiguousIn target parent"
    and lab: "labels target = labels parent"
    and sz: "\<And>l. l \<in> set (labels parent) \<Longrightarrow> l \<noteq> d \<Longrightarrow> size_of target l = size_of parent l"
    and be: "b \<le> e"
    and inn: "contains parent d \<Longrightarrow> size_of target d = e - b \<and> e \<le> size_of parent d"
    and out: "\<not> contains parent d \<Longrightarrow> b = 0 \<and> e = 1"
  shows "makeSpan (volume parent) parent d b e
           = Inr (view_indices target parent
                    (if contains parent d then b * offset parent d else b * volume parent))"
proof (cases "contains parent d")
  case False
  have "target = parent"
    using lab sz dP False by (intro dims_eqI) (auto simp add: contains_def)
  then show ?thesis
    using False out dP by (simp add: makeSpan_nat view_self)
next
  case True
  note inn' = inn [OF True]
  show ?thesis
  proof (cases "size_of parent d = e - b")
    case same: True
    then have b0: "b = 0" using inn' be by linarith
    have "target = parent"
    proof (rule dims_eqI [OF lab])
      fix l assume "l \<in> set (labels target)"
      then show "size_of target l = size_of parent l"
        using lab sz [of l] inn' same by (cases "l = d") simp_all
    next
      show "distinct (labels target)" using lab dP by simp
    qed
    then show ?thesis
      using True same b0 dP by (simp add: makeSpan_nat view_self)
  next
    case diff: False
    have v: "volume target = (e - b) * offset parent d"
      using volume_contiguous_section [OF dP ci lab True] inn' diff by simp
    have "b * offset parent d + volume target = (b + (e - b)) * offset parent d"
      unfolding v by (simp only: add_mult_distrib)
    also have "b + (e - b) = e" using be by simp
    finally have "view_indices target parent (b * offset parent d)
                    = [b * offset parent d..<e * offset parent d]"
      by (simp only: view_contiguous [OF dP ci])
    then show ?thesis
      using True diff by (simp add: makeSpan_nat [OF be])
  qed
qed

subsection \<open>The positions of a view are the positions of shifted coordinates\<close>

lemma size_of_mem:
  "distinct (labels dims) \<Longrightarrow> (l, n) \<in> set dims \<Longrightarrow> size_of dims l = n"
  by (induction dims) (auto simp add: labels_def rev_image_eqI)

lemma index_of_shift:
  assumes "distinct (labels dims)"
  shows "index_of dims (c(d := b + c d))
           = (if contains dims d then b * offset dims d else 0) + index_of dims c"
proof (cases "contains dims d")
  case False
  then show ?thesis using index_of_absent [OF False] by simp
next
  case True
  have "index_of dims (c(d := b + c d)) = index_of dims (c(d := 0)) + (b + c d) * offset dims d"
    using assms True by (rule index_of_update)
  moreover have "index_of dims (c(d := c d)) = index_of dims (c(d := 0)) + c d * offset dims d"
    using assms True by (rule index_of_update)
  moreover have "c(d := c d) = c" by simp
  ultimately show ?thesis using True by (simp add: add_mult_distrib)
qed

lemma shift_in_range:
  assumes "distinct (labels target)" "distinct (labels dims)" "in_range target c"
    and "\<And>l. l \<in> set (labels dims) \<Longrightarrow> l \<noteq> d \<Longrightarrow>
            l \<in> set (labels target) \<and> size_of target l \<le> size_of dims l"
    and "contains dims d \<Longrightarrow> contains target d \<and> b + size_of target d \<le> size_of dims d"
  shows "in_range dims (c(d := b + c d))"
proof -
  have "(c(d := b + c d)) l < size_of dims l" if l: "l \<in> set (labels dims)" for l
  proof (cases "l = d")
    case True
    then have cd: "contains dims d" using l by (simp add: contains_def)
    then have "c d < size_of target d"
      using assms(5) in_range_less_size [OF assms(1,3)] by (simp add: contains_def)
    then show ?thesis using True assms(5) [OF cd] by simp
  next
    case False
    then have "c l < size_of target l"
      using assms(4) [OF l False] in_range_less_size [OF assms(1,3)] by simp
    then show ?thesis using False assms(4) [OF l False] by simp
  qed
  then show ?thesis using assms(2) by (simp add: in_range_iff)
qed

lemma view_position:
  assumes dT: "distinct (labels target)" and dP: "distinct (labels parent)"
    and sub: "set (labels parent) \<subseteq> set (labels target)"
    and k: "k < volume target"
  shows "view_indices target parent (if contains parent d then b * offset parent d else 0) ! k
           = index_of parent ((decode target k)(d := b + decode target k d))"
proof -
  have "lin parent target (decode target k) = index_of parent (decode target k)"
    using dT dP sub by (intro lin_index_of) auto
  then show ?thesis
    using nth_view_indices [OF dT k] index_of_shift [OF dP, of "decode target k" d b]
    by simp
qed

lemma decode_agree:
  assumes "distinct (labels target)" "in_range target c" "l \<in> set (labels target)"
  shows "decode target (index_of target c) l = c l"
  using assms by (rule decode_index_of)

subsection \<open>What copy does\<close>

lemma copy_spec:
  fixes self other :: "'a DataModel"
  defines "D \<equiv> dimensions self" and "P \<equiv> dimensions other"
  assumes wf: "well_formed self" "well_formed other" and ty: "dtype other = dtype self"
    and be: "ob \<le> oe"
    and T: "T = (if contains D d then resize D d (oe - ob) else D)"
    and tgt: "contains D d \<Longrightarrow> offs + (oe - ob) \<le> size_of D d"
             "\<not> contains D d \<Longrightarrow> offs = 0 \<and> oe = ob + 1"
    and src: "contains P d \<Longrightarrow> contains D d \<and> oe \<le> size_of P d"
             "\<not> contains P d \<Longrightarrow> ob = 0 \<and> oe = 1"
    and lab: "\<And>l. l \<in> set (labels P) \<Longrightarrow> l \<noteq> d \<Longrightarrow>
                l \<in> set (labels D) \<and> size_of D l = size_of P l"
  shows "\<exists>buf'. copy self other d offs ob oe = Inr (self\<lparr>m_model := buf'\<rparr>)
           \<and> length buf' = volume D
           \<and> (\<forall>c. in_range T c \<longrightarrow>
                  buf' ! index_of D (c(d := offs + c d))
                    = m_model other ! index_of P (c(d := ob + c d)))
           \<and> (\<forall>c. in_range D c \<longrightarrow> contains D d \<longrightarrow>
                  \<not> (offs \<le> c d \<and> c d < offs + (oe - ob)) \<longrightarrow>
                  buf' ! index_of D c = m_model self ! index_of D c)"
proof -
  let ?xs = "m_model self" and ?ys = "m_model other"
  let ?delta = "oe - ob"
  let ?sb = "if contains P d then ob * offset P d else ob * volume P"
  let ?tb = "if contains D d then offs * offset D d else offs * volume D"
  let ?S = "view_indices T P ?sb" and ?R = "view_indices T D ?tb"
  have dD: "distinct (labels D)" and dP: "distinct (labels P)"
    and lx: "length ?xs = volume D" and ly: "length ?ys = volume P"
    using wf by (simp_all add: well_formed_def D_def P_def)
  have labT: "labels T = labels D" using T by simp
  have dT: "distinct (labels T)" using labT dD by simp
  have szT: "\<And>l. size_of T l = (if l = d \<and> contains D d then ?delta else size_of D l)"
    using T by (simp add: size_of_resize)
  have subP: "set (labels P) \<subseteq> set (labels T)"
  proof
    fix l assume l: "l \<in> set (labels P)"
    show "l \<in> set (labels T)"
    proof (cases "l = d")
      case True
      then show ?thesis using l src(1) labT by (simp add: contains_def)
    next
      case False
      then show ?thesis using lab [OF l False] labT by simp
    qed
  qed
  have sb: "?sb = (if contains P d then ob * offset P d else 0)"
    using src(2) by simp
  have tb: "?tb = (if contains D d then offs * offset D d else 0)"
    using tgt(2) by simp
  \<comment> \<open>the four ways to the two sequences of positions\<close>
  have view_other: "getView_slice other T d ob = Inr ?S"
  proof -
    have "\<not> list_ex (\<lambda>(l, n). contains P l \<and> size_of P l < n) T"
    proof (clarsimp simp add: list_ex_iff)
      fix l n assume m: "(l, n) \<in> set T" and c: "contains P l" and less: "size_of P l < n"
      have n: "n = size_of T l" using size_of_mem [OF dT m] by simp
      show False
      proof (cases "l = d")
        case True
        then show ?thesis using src(1) c less n szT [of l] by auto
      next
        case False
        then show ?thesis using lab [of l] c less n szT [of l] by (auto simp add: contains_def)
      qed
    qed
    then show ?thesis
      by (simp add: getView_slice_def Let_def makeVariableView_def P_def)
  qed
  have view_self: "getView_slice self T d offs = Inr ?R"
  proof -
    have "\<not> list_ex (\<lambda>(l, n). contains D l \<and> size_of D l < n) T"
    proof (clarsimp simp add: list_ex_iff)
      fix l n assume m: "(l, n) \<in> set T" and c: "contains D l" and less: "size_of D l < n"
      have n: "n = size_of T l" using size_of_mem [OF dT m] by simp
      show False using tgt(1) c less n szT [of l] by (cases "l = d") auto
    qed
    then show ?thesis
      by (simp add: getView_slice_def Let_def makeVariableView_def D_def)
  qed
  have span_self: "getSpan_slice self d offs (offs + ?delta) = Inr ?R" if ci: "isContiguousIn T D"
  proof -
    have "makeSpan (volume D) D d offs (offs + ?delta) = Inr ?R"
    proof (rule span_is_view [OF dD ci labT])
      show "\<And>l. l \<in> set (labels D) \<Longrightarrow> l \<noteq> d \<Longrightarrow> size_of T l = size_of D l"
        by (simp add: szT)
      show "offs \<le> offs + ?delta" by simp
      show "contains D d \<Longrightarrow> size_of T d = offs + ?delta - offs \<and> offs + ?delta \<le> size_of D d"
        using tgt(1) by (simp add: szT)
      show "\<not> contains D d \<Longrightarrow> offs = 0 \<and> offs + ?delta = 1"
        using tgt(2) by simp
    qed
    then show ?thesis by (simp add: getSpan_slice_def lx D_def)
  qed
  have span_other: "getSpan_slice other d ob oe = Inr ?S" if ci: "isContiguousIn T P"
  proof -
    have labP: "labels T = labels P" using dP ci subP by (rule contiguous_same_labels)
    have "makeSpan (volume P) P d ob oe = Inr ?S"
    proof (rule span_is_view [OF dP ci labP _ be])
      show "\<And>l. l \<in> set (labels P) \<Longrightarrow> l \<noteq> d \<Longrightarrow> size_of T l = size_of P l"
        using lab by (simp add: szT)
      show "contains P d \<Longrightarrow> size_of T d = ?delta \<and> oe \<le> size_of P d"
        using src(1) by (simp add: szT)
      show "\<not> contains P d \<Longrightarrow> ob = 0 \<and> oe = 1"
        using src(2) by simp
    qed
    then show ?thesis by (simp add: getSpan_slice_def ly P_def)
  qed
  \<comment> \<open>the positions, by coordinates\<close>
  have inP: "in_range P (c(d := ob + c d))" if "in_range T c" for c
  proof (rule shift_in_range [OF dT dP that])
    show "\<And>l. l \<in> set (labels P) \<Longrightarrow> l \<noteq> d \<Longrightarrow> l \<in> set (labels T) \<and> size_of T l \<le> size_of P l"
      using lab labT by (simp add: szT)
    show "contains P d \<Longrightarrow> contains T d \<and> ob + size_of T d \<le> size_of P d"
      using src(1) be labT by (simp add: szT contains_def)
  qed
  have inD: "in_range D (c(d := offs + c d))" if "in_range T c" for c
  proof (rule shift_in_range [OF dT dD that])
    show "\<And>l. l \<in> set (labels D) \<Longrightarrow> l \<noteq> d \<Longrightarrow> l \<in> set (labels T) \<and> size_of T l \<le> size_of D l"
      using labT by (simp add: szT)
    show "contains D d \<Longrightarrow> contains T d \<and> offs + size_of T d \<le> size_of D d"
      using tgt(1) labT by (simp add: szT contains_def)
  qed
  have Sk: "?S ! k = index_of P ((decode T k)(d := ob + decode T k d))" if "k < volume T" for k
    unfolding sb using dT dP subP that by (rule view_position)
  have Rk: "?R ! k = index_of D ((decode T k)(d := offs + decode T k d))" if "k < volume T" for k
    unfolding tb using dT dD _ that by (rule view_position) (simp add: labT)
  have dec: "in_range T (decode T k)" "index_of T (decode T k) = k" if "k < volume T" for k
    using decode_in_range_index [OF dT that] by simp_all
  have S_in: "\<forall>i \<in> set ?S. i < length ?ys"
  proof
    fix i assume "i \<in> set ?S"
    then obtain k where k: "k < volume T" and i: "i = ?S ! k"
      unfolding in_set_conv_nth length_view_indices by blast
    show "i < length ?ys"
      unfolding i Sk [OF k] ly using inP [OF dec(1) [OF k]] by (rule index_of_less)
  qed
  have R_in: "\<forall>i \<in> set ?R. i < length ?xs"
  proof
    fix i assume "i \<in> set ?R"
    then obtain k where k: "k < volume T" and i: "i = ?R ! k"
      unfolding in_set_conv_nth length_view_indices by blast
    show "i < length ?xs"
      unfolding i Rk [OF k] lx using inD [OF dec(1) [OF k]] by (rule index_of_less)
  qed
  have R_inj: "k = k'" if k: "k < volume T" and k': "k' < volume T" and eq: "?R ! k = ?R ! k'" for k k'
  proof -
    let ?c = "decode T k" and ?c' = "decode T k'"
    have e: "index_of D (?c(d := offs + ?c d)) = index_of D (?c'(d := offs + ?c' d))"
      using eq Rk [OF k] Rk [OF k'] by simp
    have "?c l = ?c' l" if l: "l \<in> set (labels T)" for l
    proof -
      have "(?c(d := offs + ?c d)) l = (?c'(d := offs + ?c' d)) l"
        using index_of_inj [OF dD inD [OF dec(1) [OF k]] inD [OF dec(1) [OF k']] e] l labT
        by simp
      then show ?thesis by (cases "l = d") simp_all
    qed
    then have "index_of T ?c = index_of T ?c'" by (rule index_of_cong)
    then show ?thesis using dec(2) [OF k] dec(2) [OF k'] by simp
  qed
  have R_dist: "distinct ?R"
    unfolding distinct_conv_nth length_view_indices using R_inj by blast
  \<comment> \<open>the result of the call\<close>
  let ?vals = "map ((!) ?ys) ?S"
  have rd: "deref ?ys ?S = Inr ?vals"
    using S_in by (simp add: deref_def list_all_iff del: view_indices.simps)
  obtain buf' where buf': "std_copy ?vals ?R ?xs = Inr buf'" "length buf' = length ?xs"
    "\<forall>k < length ?R. buf' ! (?R ! k) = ?vals ! k"
    "\<forall>j. j \<notin> set ?R \<longrightarrow> buf' ! j = ?xs ! j"
    using std_copy_spec [of ?vals ?R ?xs] R_dist R_in by (auto simp del: view_indices.simps)
  have call: "copy self other d offs ob oe = Inr (self\<lparr>m_model := buf'\<rparr>)"
  proof -
    have c1: "\<not> oe < ob" using be by simp
    have c2: "\<not> dtype other \<noteq> dtype self" using ty by simp
    show ?thesis
      unfolding copy_def Let_def D_def [symmetric] P_def [symmetric] T [symmetric] isContiguous_def
      by (cases "isContiguousIn T D"; cases "isContiguousIn T P")
         (simp_all only: c1 c2 if_False if_True simp_thms view_other view_self span_self
            span_other rd buf'(1) and_then.simps)
  qed
  have written: "buf' ! index_of D (c(d := offs + c d)) = ?ys ! index_of P (c(d := ob + c d))"
    if c: "in_range T c" for c
  proof -
    let ?k = "index_of T c"
    have k: "?k < volume T" using c by (rule index_of_less)
    have ag: "\<And>l. l \<in> set (labels T) \<Longrightarrow> decode T ?k l = c l"
      using decode_agree [OF dT c] by simp
    have "index_of D ((decode T ?k)(d := offs + decode T ?k d)) = index_of D (c(d := offs + c d))"
    proof (rule index_of_cong)
      fix l assume "l \<in> set (labels D)"
      then have l: "l \<in> set (labels T)" using labT by simp
      show "((decode T ?k)(d := offs + decode T ?k d)) l = (c(d := offs + c d)) l"
        using ag [OF l] by (cases "l = d") simp_all
    qed
    then have r: "?R ! ?k = index_of D (c(d := offs + c d))" using Rk [OF k] by simp
    have "index_of P ((decode T ?k)(d := ob + decode T ?k d)) = index_of P (c(d := ob + c d))"
    proof (rule index_of_cong)
      fix l assume "l \<in> set (labels P)"
      then have l: "l \<in> set (labels T)" using subP by auto
      show "((decode T ?k)(d := ob + decode T ?k d)) l = (c(d := ob + c d)) l"
        using ag [OF l] by (cases "l = d") simp_all
    qed
    then have s: "?S ! ?k = index_of P (c(d := ob + c d))" using Sk [OF k] by simp
    have "buf' ! (?R ! ?k) = ?vals ! ?k" using buf'(3) k by simp
    also have "\<dots> = ?ys ! (?S ! ?k)" using k by simp
    finally show ?thesis unfolding r s .
  qed
  have kept: "buf' ! index_of D c = ?xs ! index_of D c"
    if c: "in_range D c" and cd: "contains D d" and out: "\<not> (offs \<le> c d \<and> c d < offs + ?delta)" for c
  proof -
    have "index_of D c \<notin> set ?R"
    proof
      assume "index_of D c \<in> set ?R"
      then obtain k where k: "k < volume T" and e: "?R ! k = index_of D c"
        unfolding in_set_conv_nth length_view_indices by blast
      let ?c = "decode T k"
      have "(?c(d := offs + ?c d)) d = c d"
        using index_of_inj [OF dD inD [OF dec(1) [OF k]] c, of d] e Rk [OF k] cd
        by (simp add: contains_def)
      moreover have "?c d < ?delta"
        using in_range_less_size [OF dT dec(1) [OF k], of d] cd labT szT [of d]
        by (simp add: contains_def)
      ultimately show False using out by simp
    qed
    then show ?thesis using buf'(4) by simp
  qed
  show ?thesis
  proof (intro exI [of _ buf'] conjI allI impI)
    show "copy self other d offs ob oe = Inr (self\<lparr>m_model := buf'\<rparr>)" by (rule call)
    show "length buf' = volume D" using buf'(2) lx by simp
  next
    fix c assume "in_range T c"
    then show "buf' ! index_of D (c(d := offs + c d)) = ?ys ! index_of P (c(d := ob + c d))"
      by (rule written)
  next
    fix c assume "in_range D c" "contains D d" "\<not> (offs \<le> c d \<and> c d < offs + ?delta)"
    then show "buf' ! index_of D c = ?xs ! index_of D c" by (rule kept)
  qed
qed

section \<open>Slices and concatenation, by coordinates\<close>

lemma dimensions_setDimensions [simp]:
  "dimensions (m_object (setDimensions v dims)) = dims"
  by (simp add: setDimensions_def clone_dims_def)

lemma dtype_setDimensions [simp]:
  "dtype (m_object (setDimensions v dims)) = dtype (m_object v)"
  by (simp add: setDimensions_def clone_dims_def)

lemma header_setDimensions [simp]:
  "m_tag (setDimensions v dims) = m_tag v"
  "m_unit (setDimensions v dims) = m_unit v"
  "m_name (setDimensions v dims) = m_name v"
  by (simp_all add: setDimensions_def)

lemma well_formed_setDimensions:
  "well_formed (m_object v) \<Longrightarrow> distinct (labels dims) \<Longrightarrow>
     well_formed (m_object (setDimensions v dims))"
  by (simp add: setDimensions_def clone_dims_def well_formed_def)

lemma resize_resize [simp]: "resize (resize dims d n) d m = resize dims d m"
  by (induction dims) (auto simp add: resize_def)

lemma in_range_resize:
  assumes "distinct (labels dims)" "contains dims d"
  shows "in_range (resize dims d n) c
           \<longleftrightarrow> c d < n \<and> (\<forall>l \<in> set (labels dims). l \<noteq> d \<longrightarrow> c l < size_of dims l)"
proof -
  have "distinct (labels (resize dims d n))" using assms(1) by simp
  then have "in_range (resize dims d n) c
               \<longleftrightarrow> (\<forall>l \<in> set (labels dims). c l < size_of (resize dims d n) l)"
    by (simp add: in_range_iff)
  also have "\<dots> \<longleftrightarrow> c d < n \<and> (\<forall>l \<in> set (labels dims). l \<noteq> d \<longrightarrow> c l < size_of dims l)"
    using assms(2) by (auto simp add: size_of_resize contains_def)
  finally show ?thesis .
qed

lemma in_range_add:
  assumes "distinct (labels dims)" "\<not> contains dims d"
  shows "in_range (add dims d n) c \<longleftrightarrow> c d < n \<and> in_range dims c"
  by (auto simp add: in_range_def add_def)

lemma index_of_append:
  "index_of (A @ B) c = index_of A c + volume A * index_of B c"
  by (induction A) (auto simp add: algebra_simps)

lemma volume_append: "volume (A @ B) = volume A * volume B"
  by (simp add: volume_def)

text \<open>What \<open>slice\<close> returns: the header of the variable, the dimensions with the new
  extent, and at each coordinate the element of the variable \<open>b\<close> further along the axis.\<close>

lemma slice_spec:
  fixes var :: "('u, 'a::zero) Variable"
  defines "P \<equiv> dimensions (m_object var)"
  assumes wf: "well_formed (m_object var)" and cd: "contains P d"
    and be: "b \<le> e" and e: "e \<le> size_of P d"
  shows "\<exists>r. slice var d b e = Inr r
           \<and> m_tag r = m_tag var \<and> m_unit r = m_unit var \<and> m_name r = m_name var
           \<and> dtype (m_object r) = dtype (m_object var)
           \<and> dimensions (m_object r) = resize P d (e - b)
           \<and> well_formed (m_object r)
           \<and> (\<forall>c. in_range (resize P d (e - b)) c \<longrightarrow>
                  element_at (m_object r) c = element_at (m_object var) (c(d := b + c d)))"
proof (cases "resize P d (e - b) = P")
  case True
  have "size_of (resize P d (e - b)) d = e - b" using cd by (simp add: size_of_resize)
  then have "size_of P d = e - b" using True by simp
  then have b: "b = 0" using be e by simp
  have "slice var d b e = Inr var"
    using cd be True by (simp add: slice_def P_def)
  then show ?thesis using True wf b by (simp add: P_def)
next
  case False
  let ?D = "resize P d (e - b)"
  let ?out = "setDimensions var ?D"
  have dP: "distinct (labels P)" using wf by (simp add: well_formed_def P_def)
  have wfo: "well_formed (m_object ?out)"
    using wf dP by (intro well_formed_setDimensions) simp_all
  obtain buf' where c: "copy (m_object ?out) (m_object var) d 0 b e = Inr (m_object ?out\<lparr>m_model := buf'\<rparr>)"
    and len: "length buf' = volume ?D"
    and el: "\<And>c. in_range ?D c \<Longrightarrow>
               buf' ! index_of ?D (c(d := 0 + c d)) = m_model (m_object var) ! index_of P (c(d := b + c d))"
  proof -
    have "\<exists>buf'. copy (m_object ?out) (m_object var) d 0 b e = Inr (m_object ?out\<lparr>m_model := buf'\<rparr>)
           \<and> length buf' = volume (dimensions (m_object ?out))
           \<and> (\<forall>c. in_range ?D c \<longrightarrow>
                  buf' ! index_of (dimensions (m_object ?out)) (c(d := 0 + c d))
                    = m_model (m_object var) ! index_of (dimensions (m_object var)) (c(d := b + c d)))
           \<and> (\<forall>c. in_range (dimensions (m_object ?out)) c \<longrightarrow> contains (dimensions (m_object ?out)) d \<longrightarrow>
                  \<not> (0 \<le> c d \<and> c d < 0 + (e - b)) \<longrightarrow>
                  buf' ! index_of (dimensions (m_object ?out)) c
                    = m_model (m_object ?out) ! index_of (dimensions (m_object ?out)) c)"
    proof (rule copy_spec [OF wfo wf _ be])
      show "dtype (m_object var) = dtype (m_object ?out)" by simp
      show "?D = (if contains (dimensions (m_object ?out)) d
                  then resize (dimensions (m_object ?out)) d (e - b)
                  else dimensions (m_object ?out))"
        using cd by simp
      show "contains (dimensions (m_object ?out)) d \<Longrightarrow> 0 + (e - b) \<le> size_of (dimensions (m_object ?out)) d"
        using cd by (simp add: size_of_resize)
      show "\<not> contains (dimensions (m_object ?out)) d \<Longrightarrow> (0::nat) = 0 \<and> e = b + 1"
        using cd by simp
      show "contains (dimensions (m_object var)) d \<Longrightarrow>
              contains (dimensions (m_object ?out)) d \<and> e \<le> size_of (dimensions (m_object var)) d"
        using cd e by (simp add: P_def)
      show "\<not> contains (dimensions (m_object var)) d \<Longrightarrow> b = 0 \<and> e = 1"
        using cd by (simp add: P_def)
      show "\<And>l. l \<in> set (labels (dimensions (m_object var))) \<Longrightarrow> l \<noteq> d \<Longrightarrow>
              l \<in> set (labels (dimensions (m_object ?out)))
              \<and> size_of (dimensions (m_object ?out)) l = size_of (dimensions (m_object var)) l"
        by (simp add: size_of_resize P_def)
    qed
    then show ?thesis using that by (auto simp add: P_def)
  qed
  let ?r = "?out\<lparr>m_object := m_object ?out\<lparr>m_model := buf'\<rparr>\<rparr>"
  have s: "slice var d b e = Inr ?r"
    using cd be False c by (simp add: slice_def Let_def P_def)
  have "element_at (m_object ?r) c = element_at (m_object var) (c(d := b + c d))"
    if "in_range ?D c" for c
    using el [OF that] by (simp add: element_at_def P_def)
  then show ?thesis
    using s len dP by (simp add: well_formed_def P_def)
qed

subsection \<open>The checks of concatenate\<close>

lemma concatenate_check_None:
  "concatenate_check ls dims1 dims2 d = None
     \<longleftrightarrow> (\<forall>l \<in> set ls. l \<noteq> d \<longrightarrow> contains dims2 l \<and> size_of dims2 l = size_of dims1 l)"
  by (induction ls) auto

lemma count_without:
  assumes "distinct (labels dims)"
  shows "int (count dims) - (if contains dims d then 1 else 0) = int (card (set (labels dims) - {d}))"
proof -
  have c: "count dims = card (set (labels dims))"
    using distinct_card [OF assms] by (simp add: count_def labels_def)
  show ?thesis
  proof (cases "contains dims d")
    case True
    then have "d \<in> set (labels dims)" by (simp add: contains_def)
    then have "card (set (labels dims) - {d}) = card (set (labels dims)) - 1"
      and "0 < card (set (labels dims))"
      by (simp_all add: card_gt_0_iff) auto
    then show ?thesis using True c by simp
  next
    case False
    then show ?thesis using c by (simp add: contains_def)
  qed
qed

lemma same_labels_besides:
  assumes "distinct (labels A)" "distinct (labels B)"
    and "\<forall>l \<in> set (labels A). l \<noteq> d \<longrightarrow> contains B l"
    and "int (count A) - (if contains A d then 1 else 0) = int (count B) - (if contains B d then 1 else 0)"
  shows "set (labels A) - {d} = set (labels B) - {d}"
proof (rule card_subset_eq)
  show "finite (set (labels B) - {d})" by simp
  show "set (labels A) - {d} \<subseteq> set (labels B) - {d}"
    using assms(3) by (auto simp add: contains_def)
  show "card (set (labels A) - {d}) = card (set (labels B) - {d})"
    using assms(4) count_without [OF assms(1), of d] count_without [OF assms(2), of d] by simp
qed

lemma copy_Inr_dtype:
  "copy self other d offs ob oe = Inr r \<Longrightarrow>
     dtype other = dtype self \<and> dtype r = dtype self \<and> dimensions r = dimensions self"
  unfolding copy_def Let_def
  by (auto simp add: and_then_Inr_iff simp del: view_indices.simps split: if_splits)

text \<open>The extent of a variable along an axis that it may lack.\<close>

lemma concatenate_Inr_conditions:
  fixes a b :: "('u, 'a::zero) Variable"
  assumes wfa: "well_formed (m_object a)" and wfb: "well_formed (m_object b)"
    and r: "concatenate a b d = Inr r"
  shows "m_tag a = m_tag b" "m_unit a = m_unit b" "m_name a = m_name b"
    "dtype (m_object a) = dtype (m_object b)"
    "set (labels (dimensions (m_object a))) - {d} = set (labels (dimensions (m_object b))) - {d}"
    "\<forall>l \<in> set (labels (dimensions (m_object a))). l \<noteq> d \<longrightarrow>
        size_of (dimensions (m_object b)) l = size_of (dimensions (m_object a)) l"
proof -
  let ?A = "dimensions (m_object a)" and ?B = "dimensions (m_object b)"
  let ?na = "if contains ?A d then size_of ?A d else 1"
  let ?nb = "if contains ?B d then size_of ?B d else 1"
  let ?D = "if contains ?A d then resize ?A d (?na + ?nb) else add ?A d (?na + ?nb)"
  let ?out = "setDimensions a ?D"
  show t: "m_tag a = m_tag b" using r by (auto simp add: concatenate_def split: if_splits)
  show u: "m_unit a = m_unit b" using r by (auto simp add: concatenate_def split: if_splits)
  show n: "m_name a = m_name b" using r by (auto simp add: concatenate_def split: if_splits)
  have chk: "concatenate_check (labels ?A) ?A ?B d = None"
    using r t u n by (cases "concatenate_check (labels ?A) ?A ?B d") (simp_all add: concatenate_def)
  have rest: "(if int (count ?A) - (if contains ?A d then 1 else 0)
                   \<noteq> int (count ?B) - (if contains ?B d then 1 else 0)
               then Inl DimensionsDoNotMatch
               else and_then (copy (m_object ?out) (m_object a) d 0 0 ?na) (\<lambda>d1.
                    and_then (copy d1 (m_object b) d ?na 0 ?nb) (\<lambda>d2.
                    Inr (?out\<lparr>m_object := d2\<rparr>)))) = Inr r"
    using r t u n chk unfolding concatenate_def Let_def by simp
  then have cnt: "int (count ?A) - (if contains ?A d then 1 else 0)
                   = int (count ?B) - (if contains ?B d then 1 else 0)"
    by (auto split: if_splits)
  obtain d1 d2 where d1: "copy (m_object ?out) (m_object a) d 0 0 ?na = Inr d1"
    and d2: "copy d1 (m_object b) d ?na 0 ?nb = Inr d2"
    using rest cnt by (auto simp add: and_then_Inr_iff)
  show "dtype (m_object a) = dtype (m_object b)"
    using copy_Inr_dtype [OF d1] copy_Inr_dtype [OF d2] by simp
  have all: "\<forall>l \<in> set (labels ?A). l \<noteq> d \<longrightarrow> contains ?B l \<and> size_of ?B l = size_of ?A l"
    using chk by (simp add: concatenate_check_None)
  show "\<forall>l \<in> set (labels ?A). l \<noteq> d \<longrightarrow> size_of ?B l = size_of ?A l"
    using all by simp
  show "set (labels ?A) - {d} = set (labels ?B) - {d}"
    using wfa wfb all cnt by (intro same_labels_besides) (simp_all add: well_formed_def)
qed

subsection \<open>What concatenate returns\<close>

lemma concatenate_spec:
  fixes a b :: "('u, 'a::zero) Variable" and d :: Dim
  defines "A \<equiv> dimensions (m_object a)" and "B \<equiv> dimensions (m_object b)"
  defines "na \<equiv> (if contains A d then size_of A d else 1)"
    and "nb \<equiv> (if contains B d then size_of B d else 1)"
  defines "D \<equiv> (if contains A d then resize A d (na + nb) else add A d (na + nb))"
  assumes wfa: "well_formed (m_object a)" and wfb: "well_formed (m_object b)"
    and hdr: "m_tag a = m_tag b" "m_unit a = m_unit b" "m_name a = m_name b"
    and ty: "dtype (m_object a) = dtype (m_object b)"
    and labs: "set (labels A) - {d} = set (labels B) - {d}"
    and sz: "\<forall>l \<in> set (labels A). l \<noteq> d \<longrightarrow> size_of B l = size_of A l"
  shows "\<exists>r. concatenate a b d = Inr r
           \<and> m_tag r = m_tag a \<and> m_unit r = m_unit a \<and> m_name r = m_name a
           \<and> dtype (m_object r) = dtype (m_object a)
           \<and> dimensions (m_object r) = D
           \<and> well_formed (m_object r)
           \<and> (\<forall>c. in_range D c \<longrightarrow>
                  element_at (m_object r) c
                    = (if c d < na then element_at (m_object a) c
                       else element_at (m_object b) (c(d := c d - na))))"
proof -
  let ?out = "setDimensions a D"
  have dA: "distinct (labels A)" and dB: "distinct (labels B)"
    using wfa wfb by (simp_all add: well_formed_def A_def B_def)
  have dD: "distinct (labels D)" using dA by (simp add: D_def contains_def)
  have cD: "contains D d" by (simp add: D_def)
  have labD: "set (labels D) = insert d (set (labels A))"
    by (auto simp add: D_def contains_def)
  have szD: "size_of D l = (if l = d then na + nb else size_of A l)" for l
    by (simp add: D_def size_of_resize size_of_add size_of_absent)
  have inB: "l \<in> set (labels A) \<longleftrightarrow> l \<in> set (labels B)" if "l \<noteq> d" for l
    using labs that by blast
  have wfo: "well_formed (m_object ?out)"
    using wfa dD by (rule well_formed_setDimensions)
  \<comment> \<open>the first copy\<close>
  obtain buf1 where c1: "copy (m_object ?out) (m_object a) d 0 0 na
                           = Inr (m_object ?out\<lparr>m_model := buf1\<rparr>)"
    and len1: "length buf1 = volume D"
    and el1: "\<And>c. in_range (resize D d na) c \<Longrightarrow>
                buf1 ! index_of D (c(d := 0 + c d)) = m_model (m_object a) ! index_of A (c(d := 0 + c d))"
  proof -
    have "\<exists>buf'. copy (m_object ?out) (m_object a) d 0 0 na = Inr (m_object ?out\<lparr>m_model := buf'\<rparr>)
           \<and> length buf' = volume (dimensions (m_object ?out))
           \<and> (\<forall>c. in_range (resize D d na) c \<longrightarrow>
                  buf' ! index_of (dimensions (m_object ?out)) (c(d := 0 + c d))
                    = m_model (m_object a) ! index_of (dimensions (m_object a)) (c(d := 0 + c d)))
           \<and> (\<forall>c. in_range (dimensions (m_object ?out)) c \<longrightarrow> contains (dimensions (m_object ?out)) d \<longrightarrow>
                  \<not> (0 \<le> c d \<and> c d < 0 + (na - 0)) \<longrightarrow>
                  buf' ! index_of (dimensions (m_object ?out)) c
                    = m_model (m_object ?out) ! index_of (dimensions (m_object ?out)) c)"
    proof (rule copy_spec [OF wfo wfa])
      show "dtype (m_object a) = dtype (m_object ?out)" by simp
      show "(0::nat) \<le> na" by simp
      show "resize D d na = (if contains (dimensions (m_object ?out)) d
                  then resize (dimensions (m_object ?out)) d (na - 0)
                  else dimensions (m_object ?out))"
        using cD by simp
      show "contains (dimensions (m_object ?out)) d \<Longrightarrow> 0 + (na - 0) \<le> size_of (dimensions (m_object ?out)) d"
        by (simp add: szD)
      show "\<not> contains (dimensions (m_object ?out)) d \<Longrightarrow> (0::nat) = 0 \<and> na = 0 + 1"
        using cD by simp
      show "contains (dimensions (m_object a)) d \<Longrightarrow>
              contains (dimensions (m_object ?out)) d \<and> na \<le> size_of (dimensions (m_object a)) d"
        using cD by (simp add: na_def A_def)
      show "\<not> contains (dimensions (m_object a)) d \<Longrightarrow> (0::nat) = 0 \<and> na = 1"
        by (simp add: na_def A_def)
      show "\<And>l. l \<in> set (labels (dimensions (m_object a))) \<Longrightarrow> l \<noteq> d \<Longrightarrow>
              l \<in> set (labels (dimensions (m_object ?out)))
              \<and> size_of (dimensions (m_object ?out)) l = size_of (dimensions (m_object a)) l"
        using labD by (simp add: szD A_def)
    qed
    then show ?thesis using that by (auto simp add: A_def)
  qed
  let ?d1 = "m_object ?out\<lparr>m_model := buf1\<rparr>"
  have wf1: "well_formed ?d1" using dD len1 by (simp add: well_formed_def)
  \<comment> \<open>the second copy\<close>
  obtain buf2 where c2: "copy ?d1 (m_object b) d na 0 nb = Inr (?d1\<lparr>m_model := buf2\<rparr>)"
    and len2: "length buf2 = volume D"
    and el2: "\<And>c. in_range (resize D d nb) c \<Longrightarrow>
                buf2 ! index_of D (c(d := na + c d)) = m_model (m_object b) ! index_of B (c(d := 0 + c d))"
    and keep2: "\<And>c. in_range D c \<Longrightarrow> \<not> (na \<le> c d \<and> c d < na + nb) \<Longrightarrow>
                buf2 ! index_of D c = buf1 ! index_of D c"
  proof -
    have "\<exists>buf'. copy ?d1 (m_object b) d na 0 nb = Inr (?d1\<lparr>m_model := buf'\<rparr>)
           \<and> length buf' = volume (dimensions ?d1)
           \<and> (\<forall>c. in_range (resize D d nb) c \<longrightarrow>
                  buf' ! index_of (dimensions ?d1) (c(d := na + c d))
                    = m_model (m_object b) ! index_of (dimensions (m_object b)) (c(d := 0 + c d)))
           \<and> (\<forall>c. in_range (dimensions ?d1) c \<longrightarrow> contains (dimensions ?d1) d \<longrightarrow>
                  \<not> (na \<le> c d \<and> c d < na + (nb - 0)) \<longrightarrow>
                  buf' ! index_of (dimensions ?d1) c = m_model ?d1 ! index_of (dimensions ?d1) c)"
    proof (rule copy_spec [OF wf1 wfb])
      show "dtype (m_object b) = dtype ?d1" using ty by simp
      show "(0::nat) \<le> nb" by simp
      show "resize D d nb = (if contains (dimensions ?d1) d
                  then resize (dimensions ?d1) d (nb - 0) else dimensions ?d1)"
        using cD by simp
      show "contains (dimensions ?d1) d \<Longrightarrow> na + (nb - 0) \<le> size_of (dimensions ?d1) d"
        by (simp add: szD)
      show "\<not> contains (dimensions ?d1) d \<Longrightarrow> na = 0 \<and> nb = 0 + 1"
        using cD by simp
      show "contains (dimensions (m_object b)) d \<Longrightarrow>
              contains (dimensions ?d1) d \<and> nb \<le> size_of (dimensions (m_object b)) d"
        using cD by (simp add: nb_def B_def)
      show "\<not> contains (dimensions (m_object b)) d \<Longrightarrow> (0::nat) = 0 \<and> nb = 1"
        by (simp add: nb_def B_def)
      show "\<And>l. l \<in> set (labels (dimensions (m_object b))) \<Longrightarrow> l \<noteq> d \<Longrightarrow>
              l \<in> set (labels (dimensions ?d1))
              \<and> size_of (dimensions ?d1) l = size_of (dimensions (m_object b)) l"
        using labD inB sz by (simp add: szD B_def)
    qed
    then show ?thesis using that cD by (auto simp add: B_def)
  qed
  let ?r = "?out\<lparr>m_object := ?d1\<lparr>m_model := buf2\<rparr>\<rparr>"
  \<comment> \<open>the call\<close>
  have chk: "concatenate_check (labels A) A B d = None"
    using sz inB by (auto simp add: concatenate_check_None contains_def)
  have cnt: "int (count A) - (if contains A d then 1 else 0)
               = int (count B) - (if contains B d then 1 else 0)"
    using count_without [OF dA, of d] count_without [OF dB, of d] labs by simp
  have call: "concatenate a b d = Inr ?r"
  proof -
    have "concatenate a b d
            = and_then (copy (m_object ?out) (m_object a) d 0 0 na) (\<lambda>d1.
              and_then (copy d1 (m_object b) d na 0 nb) (\<lambda>d2. Inr (?out\<lparr>m_object := d2\<rparr>)))"
      unfolding concatenate_def Let_def D_def na_def nb_def A_def B_def
      using hdr chk cnt by (simp add: A_def B_def)
    then show ?thesis by (simp add: c1 c2)
  qed
  \<comment> \<open>the elements\<close>
  have inT: "in_range (resize D d n) c \<longleftrightarrow> c d < n \<and> (\<forall>l \<in> set (labels A). l \<noteq> d \<longrightarrow> c l < size_of A l)"
    for n c
    using in_range_resize [OF dD cD, of n c] labD by (auto simp add: szD)
  have inD: "in_range D c \<longleftrightarrow> c d < na + nb \<and> (\<forall>l \<in> set (labels A). l \<noteq> d \<longrightarrow> c l < size_of A l)"
    for c
    using dD labD by (auto simp add: in_range_iff szD)
  have el: "buf2 ! index_of D c
              = (if c d < na then m_model (m_object a) ! index_of A c
                 else m_model (m_object b) ! index_of B (c(d := c d - na)))"
    if c: "in_range D c" for c
  proof (cases "c d < na")
    case True
    have "in_range (resize D d na) c" using c True by (simp add: inT inD)
    then have "buf1 ! index_of D (c(d := 0 + c d)) = m_model (m_object a) ! index_of A (c(d := 0 + c d))"
      by (rule el1)
    moreover have "c(d := 0 + c d) = c" by simp
    ultimately have "buf1 ! index_of D c = m_model (m_object a) ! index_of A c" by simp
    moreover have "buf2 ! index_of D c = buf1 ! index_of D c"
      using c True by (intro keep2) simp_all
    ultimately show ?thesis using True by simp
  next
    case False
    let ?c = "c(d := c d - na)"
    have "in_range (resize D d nb) ?c" using c False by (auto simp add: inT inD)
    then have "buf2 ! index_of D (?c(d := na + ?c d)) = m_model (m_object b) ! index_of B (?c(d := 0 + ?c d))"
      by (rule el2)
    moreover have "?c(d := na + ?c d) = c" using False by (simp add: fun_eq_iff)
    moreover have "?c(d := 0 + ?c d) = ?c" by (simp add: fun_eq_iff)
    ultimately show ?thesis using False by simp
  qed
  show ?thesis
  proof (intro exI [of _ ?r] conjI allI impI)
    show "concatenate a b d = Inr ?r" by (rule call)
    show "well_formed (m_object ?r)" using dD len2 by (simp add: well_formed_def)
  next
    fix c assume "in_range D c"
    then show "element_at (m_object ?r) c
                 = (if c d < na then element_at (m_object a) c
                    else element_at (m_object b) (c(d := c d - na)))"
      using el [of c] by (simp add: element_at_def A_def B_def)
  qed simp_all
qed

subsection \<open>What copy leaves alone\<close>

lemma std_copy_frame:
  assumes "std_copy vals target buf = Inr buf'"
  shows "length buf' = length buf \<and> (\<forall>j. j \<notin> set target \<longrightarrow> buf' ! j = buf ! j)"
proof -
  have b: "buf' = fold (\<lambda>(i, v) b. b[i := v]) (zip target vals) buf"
    using assms by (simp add: std_copy_def split: if_splits)
  have "fold (\<lambda>(i, v) b. b[i := v]) (zip target vals) buf ! j = buf ! j" if "j \<notin> set target" for j
    using that by (intro fold_write_other) (auto dest: set_zip_leftD)
  then show ?thesis using b by simp
qed

lemma copy_target:
  fixes self :: "'a DataModel" and d :: Dim and offs n :: nat
  defines "D \<equiv> dimensions self"
  defines "R \<equiv> view_indices (if contains D d then resize D d n else D) D
                  (if contains D d then offs * offset D d else offs * volume D)"
  assumes wf: "well_formed self"
    and tgt: "contains D d \<Longrightarrow> offs + n \<le> size_of D d" "\<not> contains D d \<Longrightarrow> offs = 0 \<and> n = 1"
  shows "getView_slice self (if contains D d then resize D d n else D) d offs = Inr R"
    and "isContiguousIn (if contains D d then resize D d n else D) D \<Longrightarrow>
           getSpan_slice self d offs (offs + n) = Inr R"
    and "\<And>c. in_range D c \<Longrightarrow> contains D d \<Longrightarrow> \<not> (offs \<le> c d \<and> c d < offs + n) \<Longrightarrow>
           index_of D c \<notin> set R"
proof -
  let ?T = "if contains D d then resize D d n else D"
  have dD: "distinct (labels D)" and lx: "length (m_model self) = volume D"
    using wf by (simp_all add: well_formed_def D_def)
  have labT: "labels ?T = labels D" by simp
  have dT: "distinct (labels ?T)" using dD by simp
  have szT: "\<And>l. size_of ?T l = (if l = d \<and> contains D d then n else size_of D l)"
    by (simp add: size_of_resize)
  have tb: "(if contains D d then offs * offset D d else offs * volume D)
              = (if contains D d then offs * offset D d else 0)"
    using tgt(2) by simp
  have "\<not> list_ex (\<lambda>(l, m). contains D l \<and> size_of D l < m) ?T"
  proof (clarsimp simp add: list_ex_iff simp del: if_split split del: if_split)
    fix l m assume m: "(l, m) \<in> set ?T" and c: "contains D l" and less: "size_of D l < m"
    have "m = size_of ?T l" using size_of_mem [OF dT m] by simp
    then show False using tgt(1) c less szT [of l] by (cases "l = d") auto
  qed
  then show "getView_slice self ?T d offs = Inr R"
    by (simp add: getView_slice_def Let_def makeVariableView_def D_def R_def)
  show "getSpan_slice self d offs (offs + n) = Inr R" if ci: "isContiguousIn ?T D"
  proof -
    have "makeSpan (volume D) D d offs (offs + n) = Inr R"
      unfolding R_def
    proof (rule span_is_view [OF dD ci labT])
      show "\<And>l. l \<in> set (labels D) \<Longrightarrow> l \<noteq> d \<Longrightarrow> size_of ?T l = size_of D l"
        by (simp add: szT)
      show "offs \<le> offs + n" by simp
      show "contains D d \<Longrightarrow> size_of ?T d = offs + n - offs \<and> offs + n \<le> size_of D d"
        using tgt(1) by (simp add: size_of_resize)
      show "\<not> contains D d \<Longrightarrow> offs = 0 \<and> offs + n = 1"
        using tgt(2) by simp
    qed
    then show ?thesis by (simp add: getSpan_slice_def lx D_def)
  qed
  fix c assume c: "in_range D c" and cd: "contains D d" and out: "\<not> (offs \<le> c d \<and> c d < offs + n)"
  show "index_of D c \<notin> set R"
  proof
    assume "index_of D c \<in> set R"
    then obtain k where k: "k < volume ?T" and e: "R ! k = index_of D c"
      unfolding R_def in_set_conv_nth length_view_indices by blast
    let ?c = "decode ?T k"
    have dec: "in_range ?T ?c" using decode_in_range_index [OF dT k] by simp
    have Rk: "R ! k = index_of D (?c(d := offs + ?c d))"
      unfolding R_def tb using dT dD _ k by (rule view_position) simp
    have inD: "in_range D (?c(d := offs + ?c d))"
    proof (rule shift_in_range [OF dT dD dec])
      show "\<And>l. l \<in> set (labels D) \<Longrightarrow> l \<noteq> d \<Longrightarrow> l \<in> set (labels ?T) \<and> size_of ?T l \<le> size_of D l"
        by (simp add: szT)
      show "contains D d \<Longrightarrow> contains ?T d \<and> offs + size_of ?T d \<le> size_of D d"
        using tgt(1) by (simp add: size_of_resize)
    qed
    have "(?c(d := offs + ?c d)) d = c d"
      using index_of_inj [OF dD inD c, of d] e Rk cd by (simp add: contains_def)
    moreover have "?c d < n"
      using in_range_less_size [OF dT dec, of d] cd szT [of d] by (simp add: contains_def)
    ultimately show False using out by simp
  qed
qed

lemma copy_frame:
  fixes self other :: "'a DataModel"
  defines "D \<equiv> dimensions self"
  assumes wf: "well_formed self"
    and tgt: "contains D d \<Longrightarrow> offs + (oe - ob) \<le> size_of D d"
             "\<not> contains D d \<Longrightarrow> offs = 0 \<and> oe - ob = 1"
    and res: "copy self other d offs ob oe = Inr r"
  shows "dimensions r = D \<and> dtype r = dtype self \<and> length (m_model r) = volume D
           \<and> (\<forall>c. in_range D c \<longrightarrow> contains D d \<longrightarrow>
                  \<not> (offs \<le> c d \<and> c d < offs + (oe - ob)) \<longrightarrow>
                  m_model r ! index_of D c = m_model self ! index_of D c)"
proof -
  let ?n = "oe - ob"
  let ?T = "if contains D d then resize D d ?n else D"
  let ?R = "view_indices ?T D (if contains D d then offs * offset D d else offs * volume D)"
  have t1: "getView_slice self ?T d offs = Inr ?R"
    unfolding D_def by (rule copy_target(1) [OF wf]) (use tgt in \<open>simp_all add: D_def\<close>)
  have t2: "getSpan_slice self d offs (offs + ?n) = Inr ?R" if "isContiguousIn ?T D"
    using that unfolding D_def
    by (rule copy_target(2) [OF wf, rotated 2]) (use tgt in \<open>simp_all add: D_def\<close>)
  have t3: "index_of D c \<notin> set ?R"
    if "in_range D c" "contains D d" "\<not> (offs \<le> c d \<and> c d < offs + ?n)" for c
    using that unfolding D_def
    by (rule copy_target(3) [OF wf, rotated 2]) (use tgt in \<open>simp_all add: D_def\<close>)
  have lx: "length (m_model self) = volume D"
    using wf by (simp add: well_formed_def D_def)
  have "\<exists>vals buf. std_copy vals ?R (m_model self) = Inr buf \<and> r = self\<lparr>m_model := buf\<rparr>"
  proof (cases "isContiguousIn ?T D")
    case True
    show ?thesis
      using res True t2 [OF True]
      unfolding copy_def Let_def D_def [symmetric] isContiguous_def
      by (auto simp add: and_then_Inr_iff simp del: view_indices.simps if_split
            split: if_split_asm split del: if_split)
  next
    case False
    show ?thesis
      using res False t1
      unfolding copy_def Let_def D_def [symmetric] isContiguous_def
      by (auto simp add: and_then_Inr_iff simp del: view_indices.simps if_split
            split: if_split_asm split del: if_split)
  qed
  then obtain vals buf where s: "std_copy vals ?R (m_model self) = Inr buf"
    and r: "r = self\<lparr>m_model := buf\<rparr>" by blast
  note f = std_copy_frame [OF s]
  show ?thesis using r f lx t3 by (simp add: D_def)
qed

section \<open>Summing over an axis\<close>

subsection \<open>Accumulating through a sequence of positions\<close>

lemma length_fold_accumulate [simp]:
  "length (fold (\<lambda>(i, v) c. c[i := op (c ! i) v]) ps buf) = length buf"
  by (induction ps arbitrary: buf) auto

lemma fold_accumulate:
  fixes buf :: "'a::comm_monoid_add list"
  assumes "j < length buf"
  shows "fold (\<lambda>(i, v) c. c[i := c ! i + v]) ps buf ! j
           = buf ! j + sum_list (map snd (filter (\<lambda>p. fst p = j) ps))"
  using assms
proof (induction ps arbitrary: buf)
  case Nil
  then show ?case by simp
next
  case (Cons p ps)
  obtain i v where p: "p = (i, v)" by (cases p)
  have "fold (\<lambda>(i, v) c. c[i := c ! i + v]) ps (buf[i := buf ! i + v]) ! j
          = buf[i := buf ! i + v] ! j + sum_list (map snd (filter (\<lambda>p. fst p = j) ps))"
    using Cons.prems by (intro Cons.IH) simp
  then show ?case using p Cons.prems by (cases "i = j") (simp_all add: add.assoc)
qed

lemma sum_list_map_nth:
  fixes f :: "'b \<Rightarrow> 'a::comm_monoid_add"
  shows "sum_list (map f xs) = (\<Sum>k<length xs. f (xs ! k))"
proof -
  have "sum_list (map f xs) = (\<Sum>k = 0..<length (map f xs). map f xs ! k)"
    by (rule sum_list_sum_nth)
  also have "\<dots> = (\<Sum>k<length xs. f (xs ! k))"
    by (rule sum.cong) auto
  finally show ?thesis .
qed

lemma std_transform_sum:
  fixes buf :: "'a::comm_monoid_add list"
  assumes len: "length b = length a" and inb: "\<forall>i \<in> set a. i < length buf"
  shows "\<exists>buf'. std_transform (+) a b buf = Inr buf' \<and> length buf' = length buf
           \<and> (\<forall>j < length buf. buf' ! j = buf ! j + (\<Sum>k<length a. if a ! k = j then b ! k else 0))"
proof -
  let ?b = "fold (\<lambda>(i, v) c. c[i := c ! i + v]) (zip a b) buf"
  have r: "std_transform (+) a b buf = Inr ?b"
    using len inb by (simp add: std_transform_def list_all_iff)
  have "?b ! j = buf ! j + (\<Sum>k<length a. if a ! k = j then b ! k else 0)" if j: "j < length buf" for j
  proof -
    have "sum_list (map snd (filter (\<lambda>p. fst p = j) (zip a b)))
            = sum_list (map (\<lambda>p. if fst p = j then snd p else 0) (zip a b))"
      by (rule sum_list_map_filter')
    also have "\<dots> = (\<Sum>k<length (zip a b). if fst (zip a b ! k) = j then snd (zip a b ! k) else 0)"
      by (rule sum_list_map_nth)
    also have "\<dots> = (\<Sum>k<length a. if a ! k = j then b ! k else 0)"
      using len by (intro sum.cong) simp_all
    finally show ?thesis using fold_accumulate [OF j, of "zip a b"] by simp
  qed
  then show ?thesis using r by simp
qed

subsection \<open>Erasing an axis\<close>

lemma set_labels_erase: "set (labels (erase dims d)) = set (labels dims) - {d}"
  by (auto simp add: labels_erase)

lemma in_range_erase:
  assumes "distinct (labels dims)"
  shows "in_range (erase dims d) c
           \<longleftrightarrow> (\<forall>l \<in> set (labels dims). l \<noteq> d \<longrightarrow> c l < size_of dims l)"
  using distinct_erase [OF assms, of d]
  by (auto simp add: in_range_iff set_labels_erase size_of_erase)

lemma in_range_with:
  assumes "distinct (labels dims)" "contains dims d"
  shows "in_range dims (c(d := i)) \<longleftrightarrow> in_range (erase dims d) c \<and> i < size_of dims d"
  using assms by (auto simp add: in_range_iff in_range_erase contains_def)

lemma index_of_erase_cong:
  assumes "\<And>l. l \<in> set (labels dims) \<Longrightarrow> l \<noteq> d \<Longrightarrow> c l = c' l"
  shows "index_of (erase dims d) c = index_of (erase dims d) c'"
  using assms by (intro index_of_cong) (simp add: set_labels_erase)

subsection \<open>What sum returns\<close>

lemma sum_dim_spec:
  fixes var :: "('u, 'a::comm_monoid_add) Variable" and d :: Dim
  defines "P \<equiv> dimensions (m_object var)"
  defines "E \<equiv> erase P d"
  assumes wf: "well_formed (m_object var)" and cd: "contains P d"
    and ar: "arithmetic (dtype (m_object var))"
  shows "\<exists>r. sum_dim var d = Inr r
           \<and> m_tag r = m_tag var \<and> m_unit r = m_unit var \<and> m_name r = m_name var
           \<and> dimensions (m_object r) = E \<and> well_formed (m_object r)
           \<and> (\<forall>c. in_range E c \<longrightarrow>
                  element_at (m_object r) c
                    = (\<Sum>i<size_of P d. element_at (m_object var) (c(d := i))))
           \<and> sum_list (m_model (m_object r)) = sum_list (m_model (m_object var))"
proof -
  let ?ys = "m_model (m_object var)"
  let ?out = "setDimensions var E"
  let ?A = "view_indices P E 0"
  let ?zeros = "replicate (volume E) (0::'a)"
  have dP: "distinct (labels P)" and ly: "length ?ys = volume P"
    using wf by (simp_all add: well_formed_def P_def)
  have dE: "distinct (labels E)" unfolding E_def using dP by (rule distinct_erase)
  have labE: "set (labels E) = set (labels P) - {d}" by (simp add: E_def set_labels_erase)
  have szE: "size_of E l = size_of P l" if "l \<noteq> d" for l
    using that by (simp add: E_def size_of_erase)
  have neq: "E \<noteq> P" using cd labE by (auto simp add: contains_def)
  have out: "m_object ?out = \<lparr>dimensions = E, dtype = dtype (m_object var), m_model = ?zeros\<rparr>"
    using neq by (simp add: setDimensions_def clone_dims_def P_def)
  \<comment> \<open>the positions that the view of the result visits\<close>
  have dec: "in_range P (decode P k)" "index_of P (decode P k) = k" if "k < volume P" for k
    using decode_in_range_index [OF dP that] by simp_all
  have decE: "in_range E (decode P k)" if "k < volume P" for k
    using dec(1) [OF that] dP unfolding E_def by (simp add: in_range_erase in_range_iff)
  have Ak: "?A ! k = index_of E (decode P k)" if k: "k < volume P" for k
  proof -
    have "lin E P (decode P k) = index_of E (decode P k)"
      using dP dE by (rule lin_index_of) (simp_all add: labE)
    then show ?thesis using nth_view_indices [OF dP k, of E 0] by simp
  qed
  have A_in: "\<forall>i \<in> set ?A. i < length ?zeros"
  proof
    fix i assume "i \<in> set ?A"
    then obtain k where k: "k < volume P" and i: "i = ?A ! k"
      unfolding in_set_conv_nth length_view_indices by blast
    show "i < length ?zeros"
      unfolding i Ak [OF k] using index_of_less [OF decE [OF k]] by simp
  qed
  \<comment> \<open>the call\<close>
  obtain buf' where tr: "std_transform (+) ?A ?ys ?zeros = Inr buf'"
    and lb: "length buf' = volume E"
    and acc: "\<And>j. j < volume E \<Longrightarrow> buf' ! j = (\<Sum>k<volume P. if ?A ! k = j then ?ys ! k else 0)"
  proof -
    have "\<exists>buf'. std_transform (+) ?A ?ys ?zeros = Inr buf' \<and> length buf' = length ?zeros
           \<and> (\<forall>j < length ?zeros.
                 buf' ! j = ?zeros ! j + (\<Sum>k<length ?A. if ?A ! k = j then ?ys ! k else 0))"
      using _ A_in by (rule std_transform_sum) (simp add: ly)
    then show ?thesis using that by (auto simp del: view_indices.simps)
  qed
  have viewA: "getView (m_object ?out) P = Inr ?A"
  proof -
    have "\<not> list_ex (\<lambda>(l, m). contains E l \<and> size_of E l < m) P"
    proof (clarsimp simp add: list_ex_iff)
      fix l m assume m: "(l, m) \<in> set P" and c: "contains E l" and less: "size_of E l < m"
      have "l \<noteq> d" using c labE by (auto simp add: contains_def)
      then show False using size_of_mem [OF dP m] less szE by simp
    qed
    then show ?thesis by (simp add: getView_def makeVariableView_def out)
  qed
  have viewP: "getView (m_object var) P = Inr [0..<length ?ys]"
  proof -
    have "\<not> list_ex (\<lambda>(l, m). contains P l \<and> size_of P l < m) P"
    proof (clarsimp simp add: list_ex_iff)
      fix l m assume m: "(l, m) \<in> set P" and less: "size_of P l < m"
      show False using size_of_mem [OF dP m] less by simp
    qed
    then show ?thesis
      using view_self [OF dP, of 0] by (simp add: getView_def makeVariableView_def P_def ly)
  qed
  have derP: "deref ?ys [0..<length ?ys] = Inr ?ys"
    using deref_getSpan [of "m_object var"] by (simp add: getSpan_def)
  have ncd: "\<not> contains_dims E P"
  proof -
    obtain m where "(d, m) \<in> set P" using cd by (auto simp add: contains_def labels_def)
    moreover have "(d, m) \<notin> set E" by (simp add: E_def erase_def)
    ultimately show ?thesis by (auto simp add: contains_dims_def list_all_iff)
  qed
  let ?r = "?out\<lparr>m_object := m_object ?out\<lparr>m_model := buf'\<rparr>\<rparr>"
  have ap: "apply_op (+) (m_object ?out) (m_object var) = Inr (m_object ?out\<lparr>m_model := buf'\<rparr>)"
  proof -
    have "apply_op (+) (m_object ?out) (m_object var)
            = and_then (ArithmeticHelper_apply (+) (dtype (m_object var)) ?A ?ys ?zeros)
                (\<lambda>buf. Inr (m_object ?out\<lparr>m_model := buf\<rparr>))"
      unfolding apply_op_def
      using ncd viewA viewP derP
      by (simp add: out P_def [symmetric] del: view_indices.simps)
    then show ?thesis using ar tr by (simp add: ArithmeticHelper_apply_def del: view_indices.simps)
  qed
  have call: "sum_dim var d = Inr ?r"
    using cd ap by (simp add: sum_dim_def Let_def P_def [symmetric] E_def [symmetric])
  \<comment> \<open>the elements\<close>
  have el: "buf' ! index_of E c = (\<Sum>i<size_of P d. ?ys ! index_of P (c(d := i)))"
    if c: "in_range E c" for c
  proof -
    let ?S = "{k. k < volume P \<and> index_of E (decode P k) = index_of E c}"
    have inPc: "in_range P (c(d := i))" if "i < size_of P d" for i
      using c that dP cd unfolding E_def by (simp add: in_range_with)
    have agree: "decode P k l = c l" if k: "k \<in> ?S" and l: "l \<in> set (labels P)" "l \<noteq> d" for k l
    proof -
      have "k < volume P" "index_of E (decode P k) = index_of E c" using k by simp_all
      then show ?thesis
        using index_of_inj [OF dE decE c, of k l] l labE by simp
    qed
    have rtrip: "index_of P (c(d := decode P k d)) = k" if k: "k \<in> ?S" for k
    proof -
      have "index_of P (c(d := decode P k d)) = index_of P (decode P k)"
      proof (rule index_of_cong)
        fix l assume l: "l \<in> set (labels P)"
        show "(c(d := decode P k d)) l = decode P k l"
          using agree [OF k l] by (cases "l = d") simp_all
      qed
      then show ?thesis using dec(2) [of k] k by simp
    qed
    have "buf' ! index_of E c = (\<Sum>k<volume P. if ?A ! k = index_of E c then ?ys ! k else 0)"
      using index_of_less [OF c] by (rule acc)
    also have "\<dots> = (\<Sum>k<volume P. if index_of E (decode P k) = index_of E c then ?ys ! k else 0)"
      by (rule sum.cong) (simp_all add: Ak del: view_indices.simps)
    also have "\<dots> = (\<Sum>k \<in> {k \<in> {..<volume P}. index_of E (decode P k) = index_of E c}. ?ys ! k)"
      by (rule sum.inter_filter [symmetric]) simp
    also have "\<dots> = (\<Sum>k \<in> ?S. ?ys ! k)"
      by (rule sum.cong) auto
    also have "\<dots> = (\<Sum>i<size_of P d. ?ys ! index_of P (c(d := i)))"
    proof (rule sum.reindex_bij_witness [where i = "\<lambda>i. index_of P (c(d := i))" and j = "\<lambda>k. decode P k d"])
      fix k assume k: "k \<in> ?S"
      show "index_of P (c(d := decode P k d)) = k" using k by (rule rtrip)
      show "decode P k d \<in> {..<size_of P d}"
        using in_range_less_size [OF dP dec(1), of k d] k cd by (simp add: contains_def)
      show "?ys ! index_of P (c(d := decode P k d)) = ?ys ! k" using rtrip [OF k] by simp
    next
      fix i assume "i \<in> {..<size_of P d}"
      then have i: "i < size_of P d" by simp
      have dd: "\<And>l. l \<in> set (labels P) \<Longrightarrow> decode P (index_of P (c(d := i))) l = (c(d := i)) l"
        using decode_index_of [OF dP inPc [OF i]] by simp
      show "decode P (index_of P (c(d := i))) d = i"
        using dd [of d] cd by (simp add: contains_def)
      have "index_of E (decode P (index_of P (c(d := i)))) = index_of E c"
        unfolding E_def
      proof (rule index_of_erase_cong)
        fix l assume "l \<in> set (labels P)" "l \<noteq> d"
        then show "decode P (index_of P (c(d := i))) l = c l" using dd [of l] by simp
      qed
      then show "index_of P (c(d := i)) \<in> ?S"
        using index_of_less [OF inPc [OF i]] by simp
    qed
    finally show ?thesis .
  qed
  \<comment> \<open>the total\<close>
  have total: "sum_list buf' = sum_list ?ys"
  proof -
    have "sum_list buf' = (\<Sum>j<volume E. buf' ! j)"
      using sum_list_map_nth [of "\<lambda>x. x" buf'] lb by simp
    also have "\<dots> = (\<Sum>j<volume E. \<Sum>k<volume P. if ?A ! k = j then ?ys ! k else 0)"
      by (rule sum.cong) (simp_all add: acc del: view_indices.simps)
    also have "\<dots> = (\<Sum>k<volume P. \<Sum>j<volume E. if ?A ! k = j then ?ys ! k else 0)"
      by (rule sum.swap)
    also have "\<dots> = (\<Sum>k<volume P. ?ys ! k)"
    proof (rule sum.cong)
      fix k assume "k \<in> {..<volume P}"
      then have k: "k < volume P" by simp
      have "?A ! k \<in> {..<volume E}"
        unfolding Ak [OF k] using index_of_less [OF decE [OF k]] by simp
      then show "(\<Sum>j<volume E. if ?A ! k = j then ?ys ! k else 0) = ?ys ! k"
        by (simp add: sum.delta' del: view_indices.simps)
    qed simp
    also have "\<dots> = sum_list ?ys"
      using sum_list_map_nth [of "\<lambda>x. x" ?ys] ly by simp
    finally show ?thesis .
  qed
  show ?thesis
  proof (intro exI [of _ ?r] conjI allI impI)
    show "sum_dim var d = Inr ?r" by (rule call)
    show "well_formed (m_object ?r)" using dE lb by (simp add: well_formed_def)
    show "sum_list (m_model (m_object ?r)) = sum_list ?ys" using total by simp
  next
    fix c assume "in_range E c"
    then show "element_at (m_object ?r) c = (\<Sum>i<size_of P d. element_at (m_object var) (c(d := i)))"
      using el [of c] by (simp add: element_at_def P_def)
  qed simp_all
qed

section \<open>Splitting and putting together again\<close>

lemma collect_all_Inr:
  "\<forall>x \<in> set rs. \<exists>y. x = Inr y \<Longrightarrow> collect rs = Inr (map projr rs)"
  by (induction rs) auto

lemma split_steps:
  "xs \<noteq> [] \<Longrightarrow>
     map (\<lambda>i. slice var d (xs ! i) (xs ! (i + 1))) [0..<length xs - 1] @ [slice var d (last xs) n]
       = cuts var d (hd xs) (tl xs) n"
proof (induction xs rule: list_nonempty_induct)
  case (single x)
  then show ?case by simp
next
  case (cons x xs)
  have "[0..<length xs] = 0 # map Suc [0..<length xs - 1]"
    using cons.hyps by (cases xs) (simp_all add: upt_conv_Cons map_Suc_upt del: upt_Suc)
  then have "map (\<lambda>i. slice var d ((x # xs) ! i) ((x # xs) ! (i + 1))) [0..<length xs]
               = slice var d x (hd xs) # map (\<lambda>i. slice var d (xs ! i) (xs ! (i + 1))) [0..<length xs - 1]"
    using cons.hyps by (simp add: hd_conv_nth comp_def del: upt_Suc)
  then show ?case using cons by (cases xs) simp_all
qed

lemma split_cuts:
  assumes "indices \<noteq> []" "contains (dimensions (m_object var)) d"
  shows "split var d indices
           = collect (cuts var d 0 indices (size_of (dimensions (m_object var)) d))"
  using assms split_steps [OF assms(1), of var d "size_of (dimensions (m_object var)) d"]
  by (cases indices) (simp_all add: split_def del: upt_Suc)

lemma length_cuts [simp]: "length (cuts var d b indices n) = length indices + 1"
  by (induction indices arbitrary: b) simp_all

lemma cuts_nth:
  "k \<le> length indices \<Longrightarrow>
     cuts var d b indices n ! k = slice var d ((b # indices) ! k) ((indices @ [n]) ! k)"
proof (induction indices arbitrary: b k)
  case Nil
  then show ?case by simp
next
  case (Cons i rest)
  then show ?case by (cases k) simp_all
qed

text \<open>Two concepts with the same dimensions and the same element at every coordinate have
  the same buffer.\<close>

lemma buffer_eqI:
  assumes "well_formed a" "well_formed b" "dimensions a = dimensions b"
    and "\<And>c. in_range (dimensions a) c \<Longrightarrow> element_at a c = element_at b c"
  shows "m_model a = m_model b"
proof (rule nth_equalityI)
  show "length (m_model a) = length (m_model b)"
    using assms(1-3) by (simp add: well_formed_def)
  fix k assume "k < length (m_model a)"
  then have k: "k < volume (dimensions a)" using assms(1) by (simp add: well_formed_def)
  have "distinct (labels (dimensions a))" using assms(1) by (simp add: well_formed_def)
  then have "in_range (dimensions a) (decode (dimensions a) k)"
    "index_of (dimensions a) (decode (dimensions a) k) = k"
    using decode_in_range_index [OF _ k] by simp_all
  then show "m_model a ! k = m_model b ! k"
    using assms(4) [of "decode (dimensions a) k"] assms(3) by (simp add: element_at_def)
qed

subsection \<open>Pieces and what concatenating them gives\<close>

lemma slice_is_section:
  fixes var :: "('u, 'a::zero) Variable"
  assumes "well_formed (m_object var)" "contains (dimensions (m_object var)) d"
    and "b \<le> e" "e \<le> size_of (dimensions (m_object var)) d"
  shows "\<exists>r. slice var d b e = Inr r \<and> is_section var d b e r"
  using slice_spec [OF assms] unfolding is_section_def by auto

lemma whole_is_section:
  assumes "well_formed (m_object var)"
  shows "is_section var d 0 (size_of (dimensions (m_object var)) d) var"
proof -
  have "distinct (labels (dimensions (m_object var)))"
    using assms by (simp add: well_formed_def)
  then have "resize (dimensions (m_object var)) d (size_of (dimensions (m_object var)) d)
               = dimensions (m_object var)"
    by (rule resize_same) simp
  moreover have "c(d := 0 + c d) = c" for c :: "Dim \<Rightarrow> nat" by simp
  ultimately show ?thesis using assms by (simp add: is_section_def)
qed

lemma section_whole_eq:
  fixes var r :: "('u, 'a) Variable"
  assumes wf: "well_formed (m_object var)"
    and s: "is_section var d 0 (size_of (dimensions (m_object var)) d) r"
  shows "r = var"
proof -
  have dP: "distinct (labels (dimensions (m_object var)))"
    using wf by (simp add: well_formed_def)
  have dims: "dimensions (m_object r) = dimensions (m_object var)"
    using s resize_same [OF dP, of d "size_of (dimensions (m_object var)) d"]
    by (simp add: is_section_def)
  have id: "c(d := 0 + c d) = c" for c :: "Dim \<Rightarrow> nat" by simp
  have "m_model (m_object r) = m_model (m_object var)"
  proof (rule buffer_eqI)
    show "well_formed (m_object r)" using s by (simp add: is_section_def)
    show "well_formed (m_object var)" by (rule wf)
    show "dimensions (m_object r) = dimensions (m_object var)" by (rule dims)
    fix c assume "in_range (dimensions (m_object r)) c"
    then show "element_at (m_object r) c = element_at (m_object var) c"
      using s id [of c] by (simp add: is_section_def)
  qed
  then have "m_object r = m_object var"
    using dims s by (simp add: is_section_def)
  then show ?thesis using s by (simp add: is_section_def)
qed

lemma concatenate_sections:
  fixes var acc piece :: "('u, 'a::zero) Variable"
  assumes wf: "well_formed (m_object var)" and cd: "contains (dimensions (m_object var)) d"
    and ef: "e \<le> f"
    and a: "is_section var d 0 e acc" and p: "is_section var d e f piece"
  shows "\<exists>r. concatenate acc piece d = Inr r \<and> is_section var d 0 f r"
proof -
  let ?P = "dimensions (m_object var)"
  let ?A = "dimensions (m_object acc)" and ?B = "dimensions (m_object piece)"
  have dP: "distinct (labels ?P)" using wf by (simp add: well_formed_def)
  have A: "?A = resize ?P d e" and B: "?B = resize ?P d (f - e)"
    using a p by (simp_all add: is_section_def)
  have wa: "well_formed (m_object acc)" and wp: "well_formed (m_object piece)"
    using a p by (simp_all add: is_section_def)
  have na: "(if contains ?A d then size_of ?A d else 1) = e"
    and nb: "(if contains ?B d then size_of ?B d else 1) = f - e"
    using cd by (simp_all add: A B size_of_resize)
  have D: "(if contains ?A d then resize ?A d (e + (f - e)) else add ?A d (e + (f - e)))
             = resize ?P d f"
    using cd ef by (simp add: A)
  have ela: "\<And>c. in_range (resize ?P d e) c \<Longrightarrow> element_at (m_object acc) c = element_at (m_object var) c"
  proof -
    fix c assume "in_range (resize ?P d e) c"
    moreover have "c(d := 0 + c d) = c" by simp
    ultimately show "element_at (m_object acc) c = element_at (m_object var) c"
      using a by (simp add: is_section_def)
  qed
  have elp: "\<And>c. in_range (resize ?P d (f - e)) c \<Longrightarrow>
               element_at (m_object piece) c = element_at (m_object var) (c(d := e + c d))"
    using p by (simp add: is_section_def)
  from concatenate_spec [OF wa wp, of d]
  obtain r where r: "concatenate acc piece d = Inr r"
    and hdr: "m_tag r = m_tag acc" "m_unit r = m_unit acc" "m_name r = m_name acc"
      "dtype (m_object r) = dtype (m_object acc)"
    and dr: "dimensions (m_object r) = resize ?P d f" and wr: "well_formed (m_object r)"
    and el: "\<And>c. in_range (resize ?P d f) c \<Longrightarrow>
               element_at (m_object r) c
                 = (if c d < e then element_at (m_object acc) c
                    else element_at (m_object piece) (c(d := c d - e)))"
    unfolding na nb D using a p by (auto simp add: is_section_def A B size_of_resize)
  have "element_at (m_object r) c = element_at (m_object var) (c(d := 0 + c d))"
    if c: "in_range (resize ?P d f) c" for c
  proof (cases "c d < e")
    case True
    have "in_range (resize ?P d e) c"
      using c True unfolding in_range_resize [OF dP cd] by simp
    then show ?thesis using el [OF c] True ela by simp
  next
    case False
    let ?c = "c(d := c d - e)"
    have "in_range (resize ?P d (f - e)) ?c"
      using c False unfolding in_range_resize [OF dP cd] by auto
    then have "element_at (m_object piece) ?c = element_at (m_object var) (?c(d := e + ?c d))"
      by (rule elp)
    moreover have "?c(d := e + ?c d) = c" using False by (simp add: fun_eq_iff)
    ultimately show ?thesis using el [OF c] False by simp
  qed
  then have "is_section var d 0 f r"
    using hdr dr wr a by (simp add: is_section_def)
  then show ?thesis using r by blast
qed

lemma concatenate_from_cuts:
  fixes var acc :: "('u, 'a::zero) Variable"
  assumes wf: "well_formed (m_object var)" and cd: "contains (dimensions (m_object var)) d"
    and srt: "sorted (b # indices)"
    and rng: "\<forall>i \<in> set (b # indices). i \<le> size_of (dimensions (m_object var)) d"
    and acc: "is_section var d 0 b acc"
  shows "\<exists>r. concatenate_from acc
                (map projr (cuts var d b indices (size_of (dimensions (m_object var)) d))) d = Inr r
           \<and> is_section var d 0 (size_of (dimensions (m_object var)) d) r"
  using srt rng acc
proof (induction indices arbitrary: b acc)
  case Nil
  let ?n = "size_of (dimensions (m_object var)) d"
  have bn: "b \<le> ?n" using Nil.prems(2) by simp
  obtain r1 where r1: "slice var d b ?n = Inr r1" "is_section var d b ?n r1"
    using slice_is_section [OF wf cd bn] by auto
  obtain r where "concatenate acc r1 d = Inr r" "is_section var d 0 ?n r"
    using concatenate_sections [OF wf cd bn Nil.prems(3) r1(2)] by auto
  then show ?case using r1(1) by simp
next
  case (Cons i rest)
  let ?n = "size_of (dimensions (m_object var)) d"
  have bi: "b \<le> i" and "i \<le> ?n" using Cons.prems(1,2) by simp_all
  obtain r1 where r1: "slice var d b i = Inr r1" "is_section var d b i r1"
    using slice_is_section [OF wf cd bi \<open>i \<le> ?n\<close>] by auto
  obtain acc' where acc': "concatenate acc r1 d = Inr acc'" "is_section var d 0 i acc'"
    using concatenate_sections [OF wf cd bi Cons.prems(3) r1(2)] by auto
  have "sorted (i # rest)" "\<forall>j \<in> set (i # rest). j \<le> ?n"
    using Cons.prems(1,2) by simp_all
  from Cons.IH [OF this acc'(2)]
  show ?case using r1(1) acc'(1) by simp
qed

lemma cuts_sections:
  fixes var :: "('u, 'a::zero) Variable"
  assumes wf: "well_formed (m_object var)" and cd: "contains (dimensions (m_object var)) d"
    and srt: "sorted (b # indices)"
    and rng: "\<forall>i \<in> set (b # indices). i \<le> size_of (dimensions (m_object var)) d"
    and k: "k \<le> length indices"
  shows "\<exists>r. cuts var d b indices (size_of (dimensions (m_object var)) d) ! k = Inr r
           \<and> is_section var d ((b # indices) ! k)
                ((indices @ [size_of (dimensions (m_object var)) d]) ! k) r"
proof -
  let ?n = "size_of (dimensions (m_object var)) d"
  let ?L = "b # indices @ [?n]"
  have sL: "sorted ?L" using srt rng by (auto simp add: sorted_append)
  have lo: "(b # indices) ! k = ?L ! k" using k by (cases k) (simp_all add: nth_append)
  have hi: "(indices @ [?n]) ! k = ?L ! (k + 1)" by simp
  have "?L ! k \<le> ?L ! (k + 1)" using sL k by (intro sorted_nth_mono) simp_all
  moreover have "?L ! (k + 1) \<le> ?n"
    using rng k by (cases "k = length indices") (auto simp add: nth_append)
  ultimately show ?thesis
    using slice_is_section [OF wf cd, of "(b # indices) ! k" "(indices @ [?n]) ! k"] k
    unfolding cuts_nth [OF k] lo hi by simp
qed

section \<open>Concatenation\<close>

text \<open>
  Claim C3. For well-formed dense Variables \<open>a\<close> and \<open>b\<close>, \<open>concatenate(a, b, dim)\<close> returns
  (does not throw) exactly when the tags, units, names and element types agree and the two
  have the same axes besides \<open>dim\<close> with the same extents. When it returns, the result has
  the axes of \<open>a\<close> with extent \<open>n_a + n_b\<close> along \<open>dim\<close> (\<open>dim\<close> is added when \<open>a\<close> lacks
  it), where \<open>n_a\<close> and \<open>n_b\<close> are the extents of \<open>a\<close> and \<open>b\<close> along \<open>dim\<close>, 1 when \<open>dim\<close> is
  absent; at a coordinate below \<open>n_a\<close> along \<open>dim\<close> it holds the element of \<open>a\<close> at that
  coordinate, and at a coordinate \<open>n_a + i\<close> the element of \<open>b\<close> at \<open>i\<close>.
\<close>

theorem concatenate_requires_match_and_copies_operands:
  fixes a b :: "('u, 'a::zero) Variable" and d :: Dim
  defines "A \<equiv> dimensions (m_object a)" and "B \<equiv> dimensions (m_object b)"
  defines "na \<equiv> (if contains A d then size_of A d else 1)"
    and "nb \<equiv> (if contains B d then size_of B d else 1)"
  assumes wfa: "well_formed (m_object a)" and wfb: "well_formed (m_object b)"
  shows "((\<exists>r. concatenate a b d = Inr r) \<longleftrightarrow>
            m_tag a = m_tag b \<and> m_unit a = m_unit b \<and> m_name a = m_name b
            \<and> dtype (m_object a) = dtype (m_object b)
            \<and> set (labels A) - {d} = set (labels B) - {d}
            \<and> (\<forall>l \<in> set (labels A). l \<noteq> d \<longrightarrow> size_of B l = size_of A l))
       \<and> (\<forall>r. concatenate a b d = Inr r \<longrightarrow>
            dimensions (m_object r)
              = (if contains A d then resize A d (na + nb) else add A d (na + nb))
            \<and> well_formed (m_object r)
            \<and> (\<forall>c. in_range (dimensions (m_object r)) c \<longrightarrow>
                  element_at (m_object r) c
                    = (if c d < na then element_at (m_object a) c
                       else element_at (m_object b) (c(d := c d - na)))))"
proof (rule conjI)
  show "(\<exists>r. concatenate a b d = Inr r) \<longleftrightarrow>
            m_tag a = m_tag b \<and> m_unit a = m_unit b \<and> m_name a = m_name b
            \<and> dtype (m_object a) = dtype (m_object b)
            \<and> set (labels A) - {d} = set (labels B) - {d}
            \<and> (\<forall>l \<in> set (labels A). l \<noteq> d \<longrightarrow> size_of B l = size_of A l)"
  proof (rule iffI)
    assume "\<exists>r. concatenate a b d = Inr r"
    then obtain r where r: "concatenate a b d = Inr r" ..
    show "m_tag a = m_tag b \<and> m_unit a = m_unit b \<and> m_name a = m_name b
            \<and> dtype (m_object a) = dtype (m_object b)
            \<and> set (labels A) - {d} = set (labels B) - {d}
            \<and> (\<forall>l \<in> set (labels A). l \<noteq> d \<longrightarrow> size_of B l = size_of A l)"
      unfolding A_def B_def using concatenate_Inr_conditions [OF wfa wfb r] by blast
  next
    assume "m_tag a = m_tag b \<and> m_unit a = m_unit b \<and> m_name a = m_name b
            \<and> dtype (m_object a) = dtype (m_object b)
            \<and> set (labels A) - {d} = set (labels B) - {d}
            \<and> (\<forall>l \<in> set (labels A). l \<noteq> d \<longrightarrow> size_of B l = size_of A l)"
    then show "\<exists>r. concatenate a b d = Inr r"
      unfolding A_def B_def using concatenate_spec [OF wfa wfb, of d] by blast
  qed
  show "\<forall>r. concatenate a b d = Inr r \<longrightarrow>
            dimensions (m_object r)
              = (if contains A d then resize A d (na + nb) else add A d (na + nb))
            \<and> well_formed (m_object r)
            \<and> (\<forall>c. in_range (dimensions (m_object r)) c \<longrightarrow>
                  element_at (m_object r) c
                    = (if c d < na then element_at (m_object a) c
                       else element_at (m_object b) (c(d := c d - na))))"
  proof (intro allI impI)
    fix r assume r: "concatenate a b d = Inr r"
    note cond = concatenate_Inr_conditions [OF wfa wfb r]
    from concatenate_spec [OF wfa wfb cond]
    show "dimensions (m_object r)
               = (if contains A d then resize A d (na + nb) else add A d (na + nb))
             \<and> well_formed (m_object r)
             \<and> (\<forall>c. in_range (dimensions (m_object r)) c \<longrightarrow>
                    element_at (m_object r) c
                      = (if c d < na then element_at (m_object a) c
                         else element_at (m_object b) (c(d := c d - na))))"
      unfolding A_def B_def na_def nb_def using r by auto
  qed
qed

theorem concatenate_requires_match_and_copies_operands_witness:
  "well_formed \<lparr>dimensions = [(X, 2)], dtype = Double, m_model = [1, 2 :: int]\<rparr>
   \<and> well_formed \<lparr>dimensions = [(X, 1)], dtype = Double, m_model = [3 :: int]\<rparr>
   \<and> (\<exists>r. concatenate
         \<lparr>m_tag = Data_Value, m_unit = metre, m_name = [],
          m_object = \<lparr>dimensions = [(X, 2)], dtype = Double, m_model = [1, 2 :: int]\<rparr>\<rparr>
         \<lparr>m_tag = Data_Value, m_unit = metre, m_name = [],
          m_object = \<lparr>dimensions = [(X, 1)], dtype = Double, m_model = [3]\<rparr>\<rparr> X
       = Inr r
     \<and> dimensions (m_object r) = [(X, 3)]
     \<and> element_at (m_object r) (\<lambda>l. 0) = 1
     \<and> element_at (m_object r) (\<lambda>l. 1) = 2
     \<and> element_at (m_object r) (\<lambda>l. 2) = 3)"
proof -
  let ?a = "\<lparr>m_tag = Data_Value, m_unit = metre, m_name = [],
          m_object = \<lparr>dimensions = [(X, 2)], dtype = Double, m_model = [1, 2 :: int]\<rparr>\<rparr>"
  let ?b = "\<lparr>m_tag = Data_Value, m_unit = metre, m_name = [],
          m_object = \<lparr>dimensions = [(X, 1)], dtype = Double, m_model = [3 :: int]\<rparr>\<rparr>"
  have wfa: "well_formed (m_object ?a)" and wfb: "well_formed (m_object ?b)"
    by (simp_all add: well_formed_def labels_def volume_def)
  note t = concatenate_requires_match_and_copies_operands [OF wfa wfb, of X]
  from t obtain r where r: "concatenate ?a ?b X = Inr r"
    by (auto simp add: labels_def)
  from t r have dims: "dimensions (m_object r) = [(X, 3)]"
    by (simp add: contains_def labels_def resize_def)
  from t r have el: "\<And>c. in_range [(X, 3)] c \<Longrightarrow>
      element_at (m_object r) c
        = (if c X < 2 then element_at (m_object ?a) c else element_at (m_object ?b) (c(X := c X - 2)))"
    unfolding dims [symmetric] by (simp add: contains_def labels_def)
  have "element_at (m_object r) (\<lambda>l. 0) = 1" "element_at (m_object r) (\<lambda>l. 1) = 2"
    "element_at (m_object r) (\<lambda>l. 2) = 3"
    using el [of "\<lambda>l. 0"] el [of "\<lambda>l. 1"] el [of "\<lambda>l. 2"]
    by (simp_all add: in_range_def element_at_def)
  then show ?thesis using wfa wfb r dims by simp
qed

section \<open>Permuting along an axis\<close>

lemma fold_and_then_snoc:
  "fold (\<lambda>i r. and_then r (f i)) [0..<Suc n] init
     = and_then (fold (\<lambda>i r. and_then r (f i)) [0..<n] init) (f n)"
  by simp

text \<open>After the first \<open>n\<close> copies of a call of \<open>permute\<close> that returns, every position at
  \<open>n\<close> or beyond along the axis holds what the variable holds there.\<close>

lemma permute_fold_frame:
  fixes var :: "('u, 'a) Variable"
  defines "P \<equiv> dimensions (m_object var)"
  assumes wf: "well_formed (m_object var)" and cd: "contains P d"
    and len: "length indices \<le> size_of P d" and n: "n \<le> length indices"
    and res: "fold (\<lambda>i r. and_then r (\<lambda>dm. copy dm (m_object var) d i (indices ! i) (indices ! i + 1)))
                [0..<n] (Inr (m_object var)) = Inr dm"
  shows "dimensions dm = P \<and> dtype dm = dtype (m_object var) \<and> length (m_model dm) = volume P
           \<and> (\<forall>c. in_range P c \<longrightarrow> n \<le> c d \<longrightarrow>
                  m_model dm ! index_of P c = m_model (m_object var) ! index_of P c)"
  using n res
proof (induction n arbitrary: dm)
  case 0
  then show ?case using wf by (simp add: well_formed_def P_def)
next
  case (Suc n)
  obtain dm' where dm': "fold (\<lambda>i r. and_then r (\<lambda>dm. copy dm (m_object var) d i (indices ! i) (indices ! i + 1)))
                [0..<n] (Inr (m_object var)) = Inr dm'"
    and c: "copy dm' (m_object var) d n (indices ! n) (indices ! n + 1) = Inr dm"
    using Suc.prems(2) unfolding fold_and_then_snoc and_then_Inr_iff by blast
  have ih: "dimensions dm' = P" "dtype dm' = dtype (m_object var)" "length (m_model dm') = volume P"
    "\<And>c. in_range P c \<Longrightarrow> n \<le> c d \<Longrightarrow>
        m_model dm' ! index_of P c = m_model (m_object var) ! index_of P c"
    using Suc.IH [OF _ dm'] Suc.prems(1) by simp_all
  have wf': "well_formed dm'"
    using wf ih(1,3) by (simp add: well_formed_def P_def)
  have "dimensions dm = dimensions dm' \<and> dtype dm = dtype dm'
          \<and> length (m_model dm) = volume (dimensions dm')
          \<and> (\<forall>c. in_range (dimensions dm') c \<longrightarrow> contains (dimensions dm') d \<longrightarrow>
                 \<not> (n \<le> c d \<and> c d < n + (indices ! n + 1 - indices ! n)) \<longrightarrow>
                 m_model dm ! index_of (dimensions dm') c = m_model dm' ! index_of (dimensions dm') c)"
    using wf' _ _ c
  proof (rule copy_frame)
    show "contains (dimensions dm') d \<Longrightarrow> n + (indices ! n + 1 - indices ! n) \<le> size_of (dimensions dm') d"
      using Suc.prems(1) len by (simp add: ih(1))
    show "\<not> contains (dimensions dm') d \<Longrightarrow> n = 0 \<and> indices ! n + 1 - indices ! n = 1"
      using cd by (simp add: ih(1))
  qed
  then show ?case using ih cd by simp
qed

text \<open>When every index is within the axis, the first \<open>n\<close> copies succeed and give the
  positions below \<open>n\<close> the elements at the indices.\<close>

lemma permute_fold_spec:
  fixes var :: "('u, 'a) Variable"
  defines "P \<equiv> dimensions (m_object var)"
  assumes wf: "well_formed (m_object var)" and cd: "contains P d"
    and len: "length indices \<le> size_of P d" and n: "n \<le> length indices"
    and rng: "\<forall>i < length indices. indices ! i < size_of P d"
  shows "\<exists>dm. fold (\<lambda>i r. and_then r (\<lambda>dm. copy dm (m_object var) d i (indices ! i) (indices ! i + 1)))
                [0..<n] (Inr (m_object var)) = Inr dm
           \<and> dimensions dm = P \<and> dtype dm = dtype (m_object var) \<and> length (m_model dm) = volume P
           \<and> (\<forall>c. in_range P c \<longrightarrow> c d < n \<longrightarrow>
                  m_model dm ! index_of P c
                    = m_model (m_object var) ! index_of P (c(d := indices ! (c d))))"
  using n
proof (induction n)
  case 0
  then show ?case using wf by (simp add: well_formed_def P_def)
next
  case (Suc n)
  from Suc.IH [OF Suc_leD [OF Suc.prems]]
  obtain dm' where dm': "fold (\<lambda>i r. and_then r (\<lambda>dm. copy dm (m_object var) d i (indices ! i) (indices ! i + 1)))
                [0..<n] (Inr (m_object var)) = Inr dm'"
    and ih: "dimensions dm' = P" "dtype dm' = dtype (m_object var)" "length (m_model dm') = volume P"
    "\<And>c. in_range P c \<Longrightarrow> c d < n \<Longrightarrow>
        m_model dm' ! index_of P c = m_model (m_object var) ! index_of P (c(d := indices ! (c d)))"
    by blast
  have dP: "distinct (labels P)" using wf by (simp add: well_formed_def P_def)
  have wf': "well_formed dm'"
    using wf ih(1,3) by (simp add: well_formed_def P_def)
  have idx: "indices ! n < size_of P d" using rng Suc.prems by simp
  have "\<exists>buf'. copy dm' (m_object var) d n (indices ! n) (indices ! n + 1) = Inr (dm'\<lparr>m_model := buf'\<rparr>)
           \<and> length buf' = volume (dimensions dm')
           \<and> (\<forall>c. in_range (resize P d 1) c \<longrightarrow>
                  buf' ! index_of (dimensions dm') (c(d := n + c d))
                    = m_model (m_object var) ! index_of (dimensions (m_object var)) (c(d := indices ! n + c d)))
           \<and> (\<forall>c. in_range (dimensions dm') c \<longrightarrow> contains (dimensions dm') d \<longrightarrow>
                  \<not> (n \<le> c d \<and> c d < n + (indices ! n + 1 - indices ! n)) \<longrightarrow>
                  buf' ! index_of (dimensions dm') c = m_model dm' ! index_of (dimensions dm') c)"
  proof (rule copy_spec [OF wf' wf])
    show "dtype (m_object var) = dtype dm'" using ih(2) by simp
    show "indices ! n \<le> indices ! n + 1" by simp
    show "resize P d 1 = (if contains (dimensions dm') d
              then resize (dimensions dm') d (indices ! n + 1 - indices ! n) else dimensions dm')"
      using cd by (simp add: ih(1))
    show "contains (dimensions dm') d \<Longrightarrow> n + (indices ! n + 1 - indices ! n) \<le> size_of (dimensions dm') d"
      using Suc.prems len by (simp add: ih(1))
    show "\<not> contains (dimensions dm') d \<Longrightarrow> n = 0 \<and> indices ! n + 1 = indices ! n + 1"
      using cd by (simp add: ih(1))
    show "contains (dimensions (m_object var)) d \<Longrightarrow>
            contains (dimensions dm') d \<and> indices ! n + 1 \<le> size_of (dimensions (m_object var)) d"
      using cd idx by (simp add: ih(1) P_def)
    show "\<not> contains (dimensions (m_object var)) d \<Longrightarrow> indices ! n = 0 \<and> indices ! n + 1 = 1"
      using cd by (simp add: P_def)
    show "\<And>l. l \<in> set (labels (dimensions (m_object var))) \<Longrightarrow> l \<noteq> d \<Longrightarrow>
            l \<in> set (labels (dimensions dm')) \<and> size_of (dimensions dm') l = size_of (dimensions (m_object var)) l"
      by (simp add: ih(1) P_def)
  qed
  then obtain buf' where c: "copy dm' (m_object var) d n (indices ! n) (indices ! n + 1) = Inr (dm'\<lparr>m_model := buf'\<rparr>)"
    and lb: "length buf' = volume P"
    and wr: "\<And>c. in_range (resize P d 1) c \<Longrightarrow>
               buf' ! index_of P (c(d := n + c d))
                 = m_model (m_object var) ! index_of P (c(d := indices ! n + c d))"
    and kp0: "\<And>c. in_range P c \<Longrightarrow> contains P d \<Longrightarrow>
               \<not> (n \<le> c d \<and> c d < n + (indices ! n + 1 - indices ! n)) \<Longrightarrow>
               buf' ! index_of P c = m_model dm' ! index_of P c"
    unfolding ih(1) P_def [symmetric] by blast
  have kp: "buf' ! index_of P c = m_model dm' ! index_of P c" if "in_range P c" "c d \<noteq> n" for c
    using that(1) cd by (rule kp0) (use that(2) in simp)
  have el: "buf' ! index_of P c = m_model (m_object var) ! index_of P (c(d := indices ! (c d)))"
    if c: "in_range P c" and less: "c d < Suc n" for c
  proof (cases "c d = n")
    case True
    let ?c = "c(d := 0)"
    have "in_range (resize P d 1) ?c"
      unfolding in_range_resize [OF dP cd] using c dP by (simp add: in_range_iff)
    then have "buf' ! index_of P (?c(d := n + ?c d))
                 = m_model (m_object var) ! index_of P (?c(d := indices ! n + ?c d))"
      by (rule wr)
    moreover have "?c(d := n + ?c d) = c" using True by (simp add: fun_eq_iff)
    moreover have "?c(d := indices ! n + ?c d) = c(d := indices ! (c d))"
      using True by (simp add: fun_eq_iff)
    ultimately show ?thesis by simp
  next
    case False
    then have "c d < n" using less by simp
    then show ?thesis using kp [OF c False] ih(4) [OF c] by simp
  qed
  show ?case
  proof (intro exI [of _ "dm'\<lparr>m_model := buf'\<rparr>"] conjI allI impI)
    show "fold (\<lambda>i r. and_then r (\<lambda>dm. copy dm (m_object var) d i (indices ! i) (indices ! i + 1)))
            [0..<Suc n] (Inr (m_object var)) = Inr (dm'\<lparr>m_model := buf'\<rparr>)"
      unfolding fold_and_then_snoc dm' using c by simp
  next
    fix c assume "in_range P c" "c d < Suc n"
    then show "m_model (dm'\<lparr>m_model := buf'\<rparr>) ! index_of P c
                 = m_model (m_object var) ! index_of P (c(d := indices ! (c d)))"
      using el by simp
  qed (simp_all add: ih lb)
qed

text \<open>
  Claim C10. For every well-formed Variable \<open>var\<close>, every dimension \<open>d\<close> of \<open>var\<close> and every
  index list with \<open>len(indices) <= var.dims[d]\<close>: a call \<open>permute(var, d, indices)\<close> that
  returns keeps the header and the dimensions of \<open>var\<close>, and at every coordinate whose
  position along \<open>d\<close> is \<open>len(indices)\<close> or more the result holds the element of \<open>var\<close>; and
  when every index is a position along \<open>d\<close> the call returns, and position \<open>i\<close> below
  \<open>len(indices)\<close> holds the elements of \<open>var\<close> at position \<open>indices[i]\<close>.
\<close>

theorem permute_overwrites_only_leading_positions:
  fixes var :: "('u, 'a) Variable"
  defines "P \<equiv> dimensions (m_object var)"
  assumes wf: "well_formed (m_object var)" and cd: "contains P d"
    and len: "length indices \<le> size_of P d"
  shows "(\<forall>r. permute var d indices = Inr r \<longrightarrow>
            m_tag r = m_tag var \<and> m_unit r = m_unit var \<and> m_name r = m_name var
            \<and> dimensions (m_object r) = P
            \<and> (\<forall>c. in_range P c \<longrightarrow> length indices \<le> c d \<longrightarrow>
                   element_at (m_object r) c = element_at (m_object var) c))
       \<and> ((\<forall>i < length indices. indices ! i < size_of P d) \<longrightarrow>
            (\<exists>r. permute var d indices = Inr r
               \<and> (\<forall>c. in_range P c \<longrightarrow> c d < length indices \<longrightarrow>
                      element_at (m_object r) c
                        = element_at (m_object var) (c(d := indices ! (c d))))))"
proof (rule conjI)
  show "\<forall>r. permute var d indices = Inr r \<longrightarrow>
            m_tag r = m_tag var \<and> m_unit r = m_unit var \<and> m_name r = m_name var
            \<and> dimensions (m_object r) = P
            \<and> (\<forall>c. in_range P c \<longrightarrow> length indices \<le> c d \<longrightarrow>
                   element_at (m_object r) c = element_at (m_object var) c)"
  proof (intro allI impI)
    fix r assume "permute var d indices = Inr r"
    then obtain dm where f: "fold (\<lambda>i r. and_then r (\<lambda>dm. copy dm (m_object var) d i (indices ! i) (indices ! i + 1)))
                [0..<length indices] (Inr (m_object var)) = Inr dm"
      and r: "r = var\<lparr>m_object := dm\<rparr>"
      unfolding permute_def and_then_Inr_iff by auto
    show "m_tag r = m_tag var \<and> m_unit r = m_unit var \<and> m_name r = m_name var
            \<and> dimensions (m_object r) = P
            \<and> (\<forall>c. in_range P c \<longrightarrow> length indices \<le> c d \<longrightarrow>
                   element_at (m_object r) c = element_at (m_object var) c)"
      using permute_fold_frame [OF wf _ _ _ f] cd len r
      by (simp add: element_at_def P_def)
  qed
  show "(\<forall>i < length indices. indices ! i < size_of P d) \<longrightarrow>
            (\<exists>r. permute var d indices = Inr r
               \<and> (\<forall>c. in_range P c \<longrightarrow> c d < length indices \<longrightarrow>
                      element_at (m_object r) c
                        = element_at (m_object var) (c(d := indices ! (c d)))))"
  proof
    assume rng: "\<forall>i < length indices. indices ! i < size_of P d"
    obtain dm where f: "fold (\<lambda>i r. and_then r (\<lambda>dm. copy dm (m_object var) d i (indices ! i) (indices ! i + 1)))
                [0..<length indices] (Inr (m_object var)) = Inr dm"
      and dm: "dimensions dm = P"
        "\<And>c. in_range P c \<Longrightarrow> c d < length indices \<Longrightarrow>
           m_model dm ! index_of P c = m_model (m_object var) ! index_of P (c(d := indices ! (c d)))"
      using permute_fold_spec [OF wf, of d indices "length indices"] cd len rng
      unfolding P_def by blast
    show "\<exists>r. permute var d indices = Inr r
               \<and> (\<forall>c. in_range P c \<longrightarrow> c d < length indices \<longrightarrow>
                      element_at (m_object r) c
                        = element_at (m_object var) (c(d := indices ! (c d))))"
    proof (intro exI [of _ "var\<lparr>m_object := dm\<rparr>"] conjI allI impI)
      show "permute var d indices = Inr (var\<lparr>m_object := dm\<rparr>)"
        unfolding permute_def f by simp
    next
      fix c assume "in_range P c" "c d < length indices"
      then show "element_at (m_object (var\<lparr>m_object := dm\<rparr>)) c
                   = element_at (m_object var) (c(d := indices ! (c d)))"
        using dm by (simp add: element_at_def P_def)
    qed
  qed
qed

theorem permute_overwrites_only_leading_positions_witness:
  "well_formed \<lparr>dimensions = [(X, 3)], dtype = Double, m_model = [10, 20, 30 :: int]\<rparr>
   \<and> contains [(X, 3)] X \<and> length [2, 0 :: nat] \<le> size_of [(X, 3)] X
   \<and> (\<exists>r. permute
         \<lparr>m_tag = Data_Value, m_unit = metre, m_name = [],
          m_object = \<lparr>dimensions = [(X, 3)], dtype = Double, m_model = [10, 20, 30 :: int]\<rparr>\<rparr>
         X [2, 0] = Inr r
       \<and> element_at (m_object r) (\<lambda>l. 0) = 30
       \<and> element_at (m_object r) (\<lambda>l. 1) = 10
       \<and> element_at (m_object r) (\<lambda>l. 2) = 30)"
proof -
  let ?v = "\<lparr>m_tag = Data_Value, m_unit = metre, m_name = [],
          m_object = \<lparr>dimensions = [(X, 3)], dtype = Double, m_model = [10, 20, 30 :: int]\<rparr>\<rparr>"
  have wf: "well_formed (m_object ?v)"
    by (simp add: well_formed_def labels_def volume_def)
  have cd: "contains (dimensions (m_object ?v)) X" by (simp add: contains_def labels_def)
  have len: "length [2, 0 :: nat] \<le> size_of (dimensions (m_object ?v)) X" by simp
  have rng: "\<forall>i < length [2, 0 :: nat]. [2, 0] ! i < size_of (dimensions (m_object ?v)) X"
    by (auto simp add: nth_Cons' less_Suc_eq numeral_2_eq_2)
  note t = permute_overwrites_only_leading_positions [OF wf cd len]
  from t rng obtain r where r: "permute ?v X [2, 0] = Inr r"
    and lead: "\<And>c. in_range (dimensions (m_object ?v)) c \<Longrightarrow> c X < length [2, 0 :: nat] \<Longrightarrow>
                 element_at (m_object r) c = element_at (m_object ?v) (c(X := [2, 0] ! (c X)))"
    by blast
  from t r have rest: "\<And>c. in_range (dimensions (m_object ?v)) c \<Longrightarrow> length [2, 0 :: nat] \<le> c X \<Longrightarrow>
                 element_at (m_object r) c = element_at (m_object ?v) c"
    by blast
  have "element_at (m_object r) (\<lambda>l. 0) = 30" "element_at (m_object r) (\<lambda>l. 1) = 10"
    using lead [of "\<lambda>l. 0"] lead [of "\<lambda>l. 1"]
    by (simp_all add: in_range_def element_at_def)
  moreover have "element_at (m_object r) (\<lambda>l. 2) = 30"
    using rest [of "\<lambda>l. 2"] by (simp add: in_range_def element_at_def)
  ultimately show ?thesis using wf cd len r by simp
qed

section \<open>The sum over an axis\<close>

text \<open>
  Claim C7. For every well-formed dense Variable \<open>v\<close> of an arithmetic element type and
  every dimension \<open>d\<close> of \<open>v\<close>, \<open>sum(v, d)\<close> returns a Variable with the dimensions of \<open>v\<close>
  without \<open>d\<close> and with the unit of \<open>v\<close>; the buffer that \<^verbatim>\<open>setDimensions\<close> hands to the
  accumulation holds zeros only; the element of the result at a coordinate is the sum over
  the positions \<open>i\<close> along \<open>d\<close> of the elements of \<open>v\<close> at that coordinate with \<open>d\<close> set to
  \<open>i\<close>; and the total of the elements of the result is the total of the elements of \<open>v\<close>.
\<close>

theorem sum_erases_axis_and_preserves_total:
  fixes var :: "('u, 'a::comm_monoid_add) Variable" and d :: Dim
  defines "P \<equiv> dimensions (m_object var)"
  assumes wf: "well_formed (m_object var)" and cd: "contains P d"
    and ar: "arithmetic (dtype (m_object var))"
  shows "\<exists>r. sum_dim var d = Inr r
           \<and> dimensions (m_object r) = erase P d
           \<and> m_unit r = m_unit var
           \<and> m_model (m_object (setDimensions var (erase P d))) = replicate (volume (erase P d)) 0
           \<and> (\<forall>c. in_range (erase P d) c \<longrightarrow>
                  element_at (m_object r) c
                    = (\<Sum>i<size_of P d. element_at (m_object var) (c(d := i))))
           \<and> sum_list (m_model (m_object r)) = sum_list (m_model (m_object var))"
proof -
  have "erase P d \<noteq> P"
  proof
    assume "erase P d = P"
    then have "contains (erase P d) d" using cd by simp
    then show False by simp
  qed
  then have z: "m_model (m_object (setDimensions var (erase P d))) = replicate (volume (erase P d)) 0"
    by (simp add: setDimensions_def clone_dims_def P_def)
  obtain r where "sum_dim var d = Inr r" "dimensions (m_object r) = erase P d" "m_unit r = m_unit var"
    "\<forall>c. in_range (erase P d) c \<longrightarrow>
        element_at (m_object r) c = (\<Sum>i<size_of P d. element_at (m_object var) (c(d := i)))"
    "sum_list (m_model (m_object r)) = sum_list (m_model (m_object var))"
    using sum_dim_spec [OF wf _ ar, of d] cd unfolding P_def by blast
  then show ?thesis using z by blast
qed

theorem sum_erases_axis_and_preserves_total_witness:
  "well_formed \<lparr>dimensions = [(X, 2), (Y, 2)], dtype = Double, m_model = [1, 2, 3, 4 :: int]\<rparr>
   \<and> contains [(X, 2), (Y, 2)] X \<and> arithmetic Double
   \<and> (\<exists>r. sum_dim
         \<lparr>m_tag = Data_Value, m_unit = metre, m_name = [],
          m_object = \<lparr>dimensions = [(X, 2), (Y, 2)], dtype = Double, m_model = [1, 2, 3, 4 :: int]\<rparr>\<rparr>
         X = Inr r
       \<and> dimensions (m_object r) = [(Y, 2)]
       \<and> m_unit r = metre
       \<and> element_at (m_object r) (\<lambda>l. 0) = 3
       \<and> element_at (m_object r) (\<lambda>l. 1) = 7
       \<and> sum_list (m_model (m_object r)) = 10)"
proof -
  let ?v = "\<lparr>m_tag = Data_Value, m_unit = metre, m_name = [],
          m_object = \<lparr>dimensions = [(X, 2), (Y, 2)], dtype = Double, m_model = [1, 2, 3, 4 :: int]\<rparr>\<rparr>"
  have wf: "well_formed (m_object ?v)"
    by (simp add: well_formed_def labels_def volume_def)
  have cd: "contains (dimensions (m_object ?v)) X" by (simp add: contains_def labels_def)
  have ar: "arithmetic (dtype (m_object ?v))" by simp
  have e: "erase (dimensions (m_object ?v)) X = [(Y, 2)]" by (simp add: erase_def)
  from sum_erases_axis_and_preserves_total [OF wf cd ar]
  obtain r where r: "sum_dim ?v X = Inr r" "dimensions (m_object r) = [(Y, 2)]" "m_unit r = metre"
    "sum_list (m_model (m_object r)) = 10"
    and el: "\<And>c. in_range [(Y, 2)] c \<Longrightarrow>
        element_at (m_object r) c = (\<Sum>i<2. element_at (m_object ?v) (c(X := i)))"
    unfolding e by auto
  have "element_at (m_object r) (\<lambda>l. 0) = 3" "element_at (m_object r) (\<lambda>l. 1) = 7"
    using el [of "\<lambda>l. 0"] el [of "\<lambda>l. 1"]
    by (simp_all add: in_range_def element_at_def lessThan_Suc numeral_2_eq_2)
  then show ?thesis using wf cd r by simp
qed

section \<open>Empty slices\<close>




lemma with_buffer_same [simp]: "with_buffer s (m_model (m_object (vs_variable s))) = s"
  by (simp add: with_buffer_def)




section \<open>Split and concatenate\<close>

text \<open>
  Claim C6. For every well-formed Variable \<open>v\<close>, every dimension \<open>d\<close> of \<open>v\<close> and every
  sorted list of indices within the extent of \<open>d\<close>, \<open>split(v, d, indices)\<close> returns
  \<open>len(indices) + 1\<close> pieces, the \<open>k\<close>-th of which is the piece of \<open>v\<close> along \<open>d\<close> from the
  \<open>k\<close>-th entry of \<open>0, indices\<close> up to the \<open>k\<close>-th entry of \<open>indices, dims[d]\<close>; the empty
  list of indices returns the list of \<open>v\<close> alone; and concatenating the pieces along \<open>d\<close>,
  in order from the left, returns \<open>v\<close> itself, which \<^verbatim>\<open>operator==\<close> finds equal to \<open>v\<close>.
\<close>

theorem split_partitions_and_concatenate_restores:
  fixes var :: "('u, 'a::zero) Variable" and d :: Dim
  defines "n \<equiv> size_of (dimensions (m_object var)) d"
  assumes wf: "well_formed (m_object var)" and cd: "contains (dimensions (m_object var)) d"
    and srt: "sorted indices" and rng: "\<forall>i \<in> set indices. i \<le> n"
  shows "split var d [] = Inr [var]
       \<and> (\<exists>ps. split var d indices = Inr ps \<and> length ps = length indices + 1
            \<and> (\<forall>k \<le> length indices.
                  is_section var d ((0 # indices) ! k) ((indices @ [n]) ! k) (ps ! k))
            \<and> (\<exists>r. concatenate_from (hd ps) (tl ps) d = Inr r \<and> r = var
                  \<and> Variable_equal False r var = Inr True))"
proof (rule conjI)
  show "split var d [] = Inr [var]" by (simp add: split_def)
  have eq: "Variable_equal False var var = Inr True"
    by (simp add: Variable_equal_def concept_equal_iff)
  show "\<exists>ps. split var d indices = Inr ps \<and> length ps = length indices + 1
            \<and> (\<forall>k \<le> length indices.
                  is_section var d ((0 # indices) ! k) ((indices @ [n]) ! k) (ps ! k))
            \<and> (\<exists>r. concatenate_from (hd ps) (tl ps) d = Inr r \<and> r = var
                  \<and> Variable_equal False r var = Inr True)"
  proof (cases indices)
    case Nil
    have "is_section var d 0 n var" unfolding n_def using wf by (rule whole_is_section)
    then show ?thesis using Nil eq by (intro exI [of _ "[var]"]) (simp add: split_def)
  next
    case (Cons i0 rest)
    let ?cs = "cuts var d 0 indices n"
    let ?ps = "map projr ?cs"
    have s0: "sorted (0 # indices)" using srt by simp
    have r0: "\<forall>i \<in> set (0 # indices). i \<le> size_of (dimensions (m_object var)) d"
      using rng by (simp add: n_def)
    have sec: "\<exists>r. ?cs ! k = Inr r
                 \<and> is_section var d ((0 # indices) ! k) ((indices @ [n]) ! k) r"
      if "k \<le> length indices" for k
      unfolding n_def using wf cd s0 r0 that by (rule cuts_sections)
    have "\<forall>x \<in> set ?cs. \<exists>y. x = Inr y"
    proof
      fix x assume "x \<in> set ?cs"
      then obtain k where "k < length ?cs" "x = ?cs ! k" by (auto simp add: in_set_conv_nth)
      then show "\<exists>y. x = Inr y" using sec [of k] by auto
    qed
    then have "collect ?cs = Inr ?ps" by (rule collect_all_Inr)
    then have sp: "split var d indices = Inr ?ps"
      using split_cuts [of indices var d] cd Cons by (simp add: n_def)
    have pieces: "is_section var d ((0 # indices) ! k) ((indices @ [n]) ! k) (?ps ! k)"
      if k: "k \<le> length indices" for k
    proof -
      obtain r where "?cs ! k = Inr r"
        "is_section var d ((0 # indices) ! k) ((indices @ [n]) ! k) r"
        using sec [OF k] by auto
      then show ?thesis using k by simp
    qed
    have "is_section var d 0 i0 (?ps ! 0)" using pieces [of 0] Cons by simp
    then have h: "is_section var d 0 i0 (hd ?ps)" using Cons by simp
    have t: "tl ?ps = map projr (cuts var d i0 rest (size_of (dimensions (m_object var)) d))"
      using Cons by (simp add: n_def)
    have "sorted (i0 # rest)" "\<forall>i \<in> set (i0 # rest). i \<le> size_of (dimensions (m_object var)) d"
      using srt rng Cons by (simp_all add: n_def)
    from concatenate_from_cuts [OF wf cd this h]
    obtain r where r: "concatenate_from (hd ?ps) (tl ?ps) d = Inr r"
      "is_section var d 0 (size_of (dimensions (m_object var)) d) r"
      unfolding t by auto
    have "r = var" using wf r(2) by (rule section_whole_eq)
    then show ?thesis
      using sp pieces r(1) eq by (intro exI [of _ ?ps]) simp
  qed
qed

theorem split_partitions_and_concatenate_restores_witness:
  "well_formed \<lparr>dimensions = [(X, 3)], dtype = Double, m_model = [1, 2, 3 :: int]\<rparr>
   \<and> contains [(X, 3)] X \<and> sorted [1 :: nat] \<and> (1 :: nat) \<le> size_of [(X, 3)] X
   \<and> (\<exists>ps. split
         \<lparr>m_tag = Data_Value, m_unit = metre, m_name = [],
          m_object = \<lparr>dimensions = [(X, 3)], dtype = Double, m_model = [1, 2, 3 :: int]\<rparr>\<rparr>
         X [1] = Inr ps
       \<and> length ps = 2
       \<and> dimensions (m_object (ps ! 0)) = [(X, 1)]
       \<and> dimensions (m_object (ps ! 1)) = [(X, 2)]
       \<and> element_at (m_object (ps ! 0)) (\<lambda>l. 0) = 1
       \<and> element_at (m_object (ps ! 1)) (\<lambda>l. 0) = 2
       \<and> element_at (m_object (ps ! 1)) (\<lambda>l. 1) = 3
       \<and> concatenate_from (hd ps) (tl ps) X
           = Inr \<lparr>m_tag = Data_Value, m_unit = metre, m_name = [],
                  m_object = \<lparr>dimensions = [(X, 3)], dtype = Double, m_model = [1, 2, 3 :: int]\<rparr>\<rparr>)"
proof -
  let ?v = "\<lparr>m_tag = Data_Value, m_unit = metre, m_name = [],
          m_object = \<lparr>dimensions = [(X, 3)], dtype = Double, m_model = [1, 2, 3 :: int]\<rparr>\<rparr>"
  have wf: "well_formed (m_object ?v)"
    by (simp add: well_formed_def labels_def volume_def)
  have cd: "contains (dimensions (m_object ?v)) X" by (simp add: contains_def labels_def)
  have srt: "sorted [1 :: nat]" by simp
  have rng: "\<forall>i \<in> set [1 :: nat]. i \<le> size_of (dimensions (m_object ?v)) X" by simp
  from split_partitions_and_concatenate_restores [OF wf cd srt rng]
  obtain ps where ps: "split ?v X [1] = Inr ps" "length ps = 2"
    and sec: "\<And>k. k \<le> 1 \<Longrightarrow> is_section ?v X ((0 # [1]) ! k) (([1] @ [3]) ! k) (ps ! k)"
    and rt: "concatenate_from (hd ps) (tl ps) X = Inr ?v"
    by auto
  have s0: "is_section ?v X 0 1 (ps ! 0)" using sec [of 0] by simp
  have s1: "is_section ?v X 1 3 (ps ! 1)" using sec [of 1] by simp
  have d0: "dimensions (m_object (ps ! 0)) = [(X, 1)]"
    and d1: "dimensions (m_object (ps ! 1)) = [(X, 2)]"
    using s0 s1 by (simp_all add: is_section_def resize_def)
  have el0: "\<And>c. in_range [(X, 1)] c \<Longrightarrow>
      element_at (m_object (ps ! 0)) c = element_at (m_object ?v) (c(X := 0 + c X))"
    using s0 unfolding is_section_def d0 by blast
  have el1: "\<And>c. in_range [(X, 2)] c \<Longrightarrow>
      element_at (m_object (ps ! 1)) c = element_at (m_object ?v) (c(X := 1 + c X))"
    using s1 unfolding is_section_def d1 by blast
  have e0: "element_at (m_object (ps ! 0)) (\<lambda>l. 0) = 1"
    using el0 [of "\<lambda>l. 0"] by (simp add: in_range_def element_at_def)
  have e1: "element_at (m_object (ps ! 1)) (\<lambda>l. 0) = 2"
    "element_at (m_object (ps ! 1)) (\<lambda>l. 1) = 3"
    using el1 [of "\<lambda>l. 0"] el1 [of "\<lambda>l. 1"] by (simp_all add: in_range_def element_at_def)
  show ?thesis
    using wf cd ps d0 d1 e0 e1 rt by simp
qed

section \<open>Events times a histogram\<close>

lemma collect_map_Inr:
  "(\<And>x. x \<in> set xs \<Longrightarrow> f x = Inr (g x)) \<Longrightarrow> collect (map f xs) = Inr (map g xs)"
  by (induction xs) simp_all

lemma collect_Inl:
  "Inl e \<in> set rs \<Longrightarrow> \<exists>e'. collect rs = Inl e'"
proof (induction rs)
  case Nil
  then show ?case by simp
next
  case (Cons r rs)
  show ?case
  proof (cases r)
    case (Inl a)
    then show ?thesis by simp
  next
    case (Inr b)
    then have "Inl e \<in> set rs" using Cons.prems by auto
    then obtain e' where "collect rs = Inl e'" using Cons.IH by blast
    then show ?thesis using Inr by simp
  qed
qed

lemma apply_op_sparse_dense_uniform:
  fixes edges weights coord :: "'a::floor_ceiling list"
  assumes lin: "is_linspace edges" and w: "length edges - 1 \<le> length weights"
  shows "apply_op_sparse_dense op coord edges weights
           = Inr (map (event_contribution op edges weights) coord)"
proof -
  let ?K = "length edges - 1"
  let ?scale = "of_nat ?K / (edges ! ?K - edges ! 0)"
  let ?f = "\<lambda>c. let event_weight = 1;
                    bin = (c - edges ! 0) * ?scale
                in if bin \<ge> 0 \<and> bin < of_nat ?K then
                     (if nat \<lfloor>bin\<rfloor> < length weights
                      then Inr (op event_weight (weights ! nat \<lfloor>bin\<rfloor>))
                      else Inl OutOfBounds)
                   else Inr (op event_weight 0)"
  have one: "?f c = Inr (event_contribution op edges weights c)" for c
  proof -
    let ?b = "(c - edges ! 0) * ?scale"
    have r: "0 \<le> \<lfloor>?b\<rfloor> \<and> \<lfloor>?b\<rfloor> < int ?K \<longleftrightarrow> ?b \<ge> 0 \<and> ?b < of_nat ?K"
      by (simp add: floor_less_iff)
    show ?thesis
    proof (cases "?b \<ge> 0 \<and> ?b < of_nat ?K")
      case True
      then have fl: "0 \<le> \<lfloor>?b\<rfloor> \<and> \<lfloor>?b\<rfloor> < int ?K" using r by blast
      then have idx: "nat \<lfloor>?b\<rfloor> < length weights" using w by linarith
      show ?thesis
        unfolding event_contribution_def Let_def using True fl idx
        by (simp only: if_True simp_thms)
    next
      case False
      then have fl: "\<not> (0 \<le> \<lfloor>?b\<rfloor> \<and> \<lfloor>?b\<rfloor> < int ?K)" using r by blast
      show ?thesis
        unfolding event_contribution_def Let_def using False fl
        by (simp only: if_False simp_thms)
    qed
  qed
  have "apply_op_sparse_dense op coord edges weights = collect (map ?f coord)"
    unfolding apply_op_sparse_dense_def linear_edge_params_def using lin
    by (simp only: if_True prod.case)
  also have "\<dots> = Inr (map (event_contribution op edges weights) coord)"
    by (rule collect_map_Inr) (rule one)
  finally show ?thesis .
qed

text \<open>
  Claim C8. In the fused multiply or divide of events with a histogram, with
  \<open>offset = edges[0]\<close> and \<open>scale = K / (edges[K] - edges[0])\<close> for \<open>K + 1\<close> uniformly spaced
  edges and at least \<open>K\<close> weights, every event \<open>e\<close> at an outer position \<open>p\<close> contributes
  \<open>op(1, weights[p, bin])\<close> when \<open>bin = floor((e - offset) * scale)\<close> lies in \<open>[0, K)\<close> and
  \<open>op(1, 0)\<close> otherwise, in the order of the events; the unit of the result is that of
  \<open>op\<close> on one count and the unit of the weights; and edges that are not uniformly spaced
  make the operation raise an error, for one row and for every list of rows that has
  such a row.
\<close>

theorem sparse_dense_contribution_per_event:
  fixes rows :: "('a::floor_ceiling list \<times> 'a list \<times> 'a list) list"
    and coord edges weights :: "'a list"
  shows "(is_linspace edges \<and> length edges - 1 \<le> length weights \<longrightarrow>
            apply_op_sparse_dense op coord edges weights
              = Inr (map (event_contribution op edges weights) coord))
       \<and> (\<not> is_linspace edges \<longrightarrow>
            (\<exists>e. apply_op_sparse_dense op coord edges weights = Inl e))
       \<and> (sparse_unit = edges_unit
            \<and> (\<forall>(c, e, w) \<in> set rows. is_linspace e \<and> length e - 1 \<le> length w) \<longrightarrow>
            sparse_dense_op_impl op unit_op counts sparse_unit edges_unit weights_unit rows
              = Inr (unit_op counts weights_unit,
                     map (\<lambda>(c, e, w). map (event_contribution op e w) c) rows))
       \<and> ((\<exists>(c, e, w) \<in> set rows. \<not> is_linspace e) \<longrightarrow>
            (\<exists>e. sparse_dense_op_impl op unit_op counts sparse_unit edges_unit weights_unit rows
                    = Inl e))"
proof (intro conjI impI)
  assume "is_linspace edges \<and> length edges - 1 \<le> length weights"
  then show "apply_op_sparse_dense op coord edges weights
               = Inr (map (event_contribution op edges weights) coord)"
    by (simp add: apply_op_sparse_dense_uniform)
next
  assume "\<not> is_linspace edges"
  then show "\<exists>e. apply_op_sparse_dense op coord edges weights = Inl e"
    by (cases "sorted_edges edges") (simp_all add: apply_op_sparse_dense_def)
next
  assume a: "sparse_unit = edges_unit
               \<and> (\<forall>(c, e, w) \<in> set rows. is_linspace e \<and> length e - 1 \<le> length w)"
  have "collect (map (\<lambda>(coord, edges, weights). apply_op_sparse_dense op coord edges weights) rows)
          = Inr (map (\<lambda>(c, e, w). map (event_contribution op e w) c) rows)"
  proof (rule collect_map_Inr)
    fix x assume "x \<in> set rows"
    then show "(case x of (coord, edges, weights) \<Rightarrow> apply_op_sparse_dense op coord edges weights)
                 = Inr (case x of (c, e, w) \<Rightarrow> map (event_contribution op e w) c)"
      using a by (cases x) (auto simp add: apply_op_sparse_dense_uniform)
  qed
  then show "sparse_dense_op_impl op unit_op counts sparse_unit edges_unit weights_unit rows
               = Inr (unit_op counts weights_unit,
                      map (\<lambda>(c, e, w). map (event_contribution op e w) c) rows)"
    using a by (simp add: sparse_dense_op_impl_def)
next
  assume "\<exists>(c, e, w) \<in> set rows. \<not> is_linspace e"
  then obtain c e w where m: "(c, e, w) \<in> set rows" and n: "\<not> is_linspace e" by auto
  have "\<exists>err. apply_op_sparse_dense op c e w = Inl err"
    using n by (cases "sorted_edges e") (simp_all add: apply_op_sparse_dense_def)
  then obtain err where "apply_op_sparse_dense op c e w = Inl err" ..
  then have "Inl err \<in> set (map (\<lambda>(coord, edges, weights).
                                    apply_op_sparse_dense op coord edges weights) rows)"
    using m by force
  then obtain e' where "collect (map (\<lambda>(coord, edges, weights).
                                    apply_op_sparse_dense op coord edges weights) rows) = Inl e'"
    using collect_Inl by blast
  then show "\<exists>e. sparse_dense_op_impl op unit_op counts sparse_unit edges_unit weights_unit rows
                    = Inl e"
    by (simp add: sparse_dense_op_impl_def)
qed

theorem sparse_dense_contribution_per_event_witness:
  "is_linspace [0, 1, 2 :: rat] \<and> length [0, 1, 2 :: rat] - 1 \<le> length [10, 20 :: rat]
   \<and> apply_op_sparse_dense (*) [1 / 2, 3 / 2, 5 / 2, - 1] [0, 1, 2 :: rat] [10, 20]
       = Inr [10, 20, 0, 0]
   \<and> \<not> is_linspace [0, 1, 3 :: rat]
   \<and> (\<exists>e. apply_op_sparse_dense (*) [1 / 2] [0, 1, 3 :: rat] [10, 20] = Inl e)"
proof -
  have l: "is_linspace [0, 1, 2 :: rat]" by code_simp
  have n: "\<not> is_linspace [0, 1, 3 :: rat]" by code_simp
  have w: "length [0, 1, 2 :: rat] - 1 \<le> length [10, 20 :: rat]" by simp
  note t = sparse_dense_contribution_per_event
             [where edges = "[0, 1, 2 :: rat]" and weights = "[10, 20]" and op = "(*)"
                and coord = "[1 / 2, 3 / 2, 5 / 2, - 1]"]
  note t' = sparse_dense_contribution_per_event
             [where edges = "[0, 1, 3 :: rat]" and weights = "[10, 20]" and op = "(*)"
                and coord = "[1 / 2]"]
  have "apply_op_sparse_dense (*) [1 / 2, 3 / 2, 5 / 2, - 1] [0, 1, 2 :: rat] [10, 20]
          = Inr (map (event_contribution (*) [0, 1, 2] [10, 20]) [1 / 2, 3 / 2, 5 / 2, - 1])"
    using conjunct1 [OF t] l w by blast
  moreover have "map (event_contribution (*) [0, 1, 2 :: rat] [10, 20]) [1 / 2, 3 / 2, 5 / 2, - 1]
                   = [10, 20, 0, 0]"
    by code_simp
  ultimately have a: "apply_op_sparse_dense (*) [1 / 2, 3 / 2, 5 / 2, - 1] [0, 1, 2 :: rat] [10, 20]
                        = Inr [10, 20, 0, 0]"
    by simp
  have b: "\<exists>e. apply_op_sparse_dense (*) [1 / 2] [0, 1, 3 :: rat] [10, 20] = Inl e"
    using conjunct1 [OF conjunct2 [OF t']] n by blast
  show ?thesis using l w a n b by blast
qed

end
